theory Spec2Isabelle
  imports Complex_Main
begin

section \<open>Text: Python strings as lists of code points\<close>

text \<open>
  A Python \<^verbatim>\<open>str\<close> is a sequence of Unicode code points. Two of the characters that
  \<^verbatim>\<open>clean_transcript\<close> removes (the en dash U+2013 and the em dash U+2014) lie outside
  the 8-bit \<^typ>\<open>char\<close>, so a string is modelled as the list of its code points.
  \<open>lit\<close> embeds an ASCII literal.
\<close>

type_synonym str = "nat list"

definition lit :: "string \<Rightarrow> str" where
  "lit s = map of_char s"

text \<open>
  \<^verbatim>\<open>\s\<close> in a \<^verbatim>\<open>str\<close> pattern and \<^verbatim>\<open>str.strip()\<close> both use the interpreter's
  \<^verbatim>\<open>Py_UNICODE_ISSPACE\<close>: the 29 code points below.
\<close>

definition is_space :: "nat \<Rightarrow> bool" where
  "is_space c \<longleftrightarrow>
     (9 \<le> c \<and> c \<le> 13) \<or> (28 \<le> c \<and> c \<le> 32) \<or> c = 133 \<or> c = 160 \<or> c = 5760 \<or>
     (8192 \<le> c \<and> c \<le> 8202) \<or> c = 8232 \<or> c = 8233 \<or> c = 8239 \<or> c = 8287 \<or> c = 12288"

text \<open>
  \<^verbatim>\<open>\d\<close> in a \<^verbatim>\<open>str\<close> pattern is \<^verbatim>\<open>Py_UNICODE_ISDECIMAL\<close>, the general category Nd.
  In ASCII these are the digits \<^verbatim>\<open>0\<close> to \<^verbatim>\<open>9\<close>. Which code points beyond ASCII are
  decimal digits depends on the Unicode version of the interpreter, which the repository
  does not fix: that part of the table is the parameter \<open>nd\<close> of the sanitizer.
\<close>

definition is_decimal :: "(nat \<Rightarrow> bool) \<Rightarrow> nat \<Rightarrow> bool" where
  "is_decimal nd c \<longleftrightarrow> (48 \<le> c \<and> c \<le> 57) \<or> (128 \<le> c \<and> nd c)"

text \<open>
  One such table: the decimal digits of Unicode 14 beyond ASCII (first and last code point
  of each range), as CPython 3.11 has them.
\<close>

definition unicode14_ranges :: "(nat \<times> nat) list" where
  "unicode14_ranges =
    [(1632, 1641), (1776, 1785), (1984, 1993), (2406, 2415), (2534, 2543),
     (2662, 2671), (2790, 2799), (2918, 2927), (3046, 3055), (3174, 3183), (3302, 3311),
     (3430, 3439), (3558, 3567), (3664, 3673), (3792, 3801), (3872, 3881), (4160, 4169),
     (4240, 4249), (6112, 6121), (6160, 6169), (6470, 6479), (6608, 6617), (6784, 6793),
     (6800, 6809), (6992, 7001), (7088, 7097), (7232, 7241), (7248, 7257), (42528, 42537),
     (43216, 43225), (43264, 43273), (43472, 43481), (43504, 43513), (43600, 43609),
     (44016, 44025), (65296, 65305), (66720, 66729), (68912, 68921), (69734, 69743),
     (69872, 69881), (69942, 69951), (70096, 70105), (70384, 70393), (70736, 70745),
     (70864, 70873), (71248, 71257), (71360, 71369), (71472, 71481), (71904, 71913),
     (72016, 72025), (72784, 72793), (73040, 73049), (73120, 73129), (92768, 92777),
     (92864, 92873), (93008, 93017), (120782, 120831), (123200, 123209), (123632, 123641),
     (125264, 125273), (130032, 130041)]"

definition unicode14_decimal :: "nat \<Rightarrow> bool" where
  "unicode14_decimal c = list_ex (\<lambda>(lo, hi). lo \<le> c \<and> c \<le> hi) unicode14_ranges"

section \<open>Regular-expression substitution\<close>

text \<open>
  A matcher tells, for the text that starts at the current position, how many characters
  the pattern matches there (\<open>None\<close>: no match at this position).

  \<open>re_sub m repl s\<close> is \<^verbatim>\<open>re.sub(pattern, repl, s)\<close> for a pattern with matcher \<open>m\<close>
  and a replacement without group references: the text is scanned from the left; where
  the pattern matches, the match is replaced and the scan goes on behind it; where it does
  not, the character is kept. An empty match is replaced and the character behind it kept
  (no pattern of \<^verbatim>\<open>clean_transcript\<close> has one, see \<open>matchers_nonempty\<close>).
\<close>

type_synonym matcher = "str \<Rightarrow> nat option"

function re_sub :: "matcher \<Rightarrow> str \<Rightarrow> str \<Rightarrow> str" where
  "re_sub m repl [] = (case m [] of None \<Rightarrow> [] | Some k \<Rightarrow> repl)"
| "re_sub m repl (c # cs) =
     (case m (c # cs) of
        None \<Rightarrow> c # re_sub m repl cs
      | Some k \<Rightarrow>
          if k = 0 then repl @ c # re_sub m repl cs
          else repl @ re_sub m repl (drop k (c # cs)))"
  by pat_completeness auto
termination
  by (relation "measure (\<lambda>(m, repl, s). length s)") auto

text \<open>Concatenation of patterns: \<open>q\<close> is matched behind the match of \<open>p\<close>.\<close>

definition seq :: "matcher \<Rightarrow> matcher \<Rightarrow> matcher" where
  "seq p q s =
     (case p s of
        None \<Rightarrow> None
      | Some a \<Rightarrow> (case q (drop a s) of None \<Rightarrow> None | Some b \<Rightarrow> Some (a + b)))"

text \<open>
  \<^verbatim>\<open>\\an\d+\\?.*?\<close>: a backslash, \<^verbatim>\<open>an\<close>, one or more digits (greedy: all of them),
  one backslash if there is one, and the lazy \<^verbatim>\<open>.*?\<close>, which ends the pattern and
  therefore matches the empty string.
\<close>

definition match_an_tag :: "(nat \<Rightarrow> bool) \<Rightarrow> matcher" where
  "match_an_tag nd s =
     (if take 3 s = [92, 97, 110] then
        (let n = length (takeWhile (is_decimal nd) (drop 3 s)) in
         if n = 0 then None
         else Some (3 + n + (if take 1 (drop (3 + n) s) = [92] then 1 else 0)))
      else None)"

text \<open>
  The character class of the second substitution:
  \<^verbatim>\<open>- U+2013 U+2014 _ = * # { } < > [ ] " ' ` |\<close>.
\<close>

definition punctuation :: "nat list" where
  "punctuation =
     [45, 8211, 8212, 95, 61, 42, 35, 123, 125, 60, 62, 91, 93, 34, 39, 96, 124]"

definition match_punctuation :: matcher where
  "match_punctuation s =
     (case s of [] \<Rightarrow> None | c # _ \<Rightarrow> if c \<in> set punctuation then Some 1 else None)"

text \<open>\<^verbatim>\<open>\s{2,}\<close> and \<^verbatim>\<open>\n{2,}\<close>: a greedy run of at least two characters of a class.\<close>

definition match_run :: "(nat \<Rightarrow> bool) \<Rightarrow> matcher" where
  "match_run p s = (let n = length (takeWhile p s) in if 2 \<le> n then Some n else None)"

text \<open>
  \<^verbatim>\<open>\d{2,}[:.]\d{2,}[:.]\d{2,}\<close>. Each greedy digit group takes the whole run of digits:
  the character behind a shorter group would be a digit, which is neither \<^verbatim>\<open>:\<close> nor
  \<^verbatim>\<open>.\<close>, so backtracking into a group never finds a match that the whole run misses.
\<close>

definition match_separator :: matcher where
  "match_separator s =
     (case s of [] \<Rightarrow> None | c # _ \<Rightarrow> if c = 58 \<or> c = 46 then Some 1 else None)"

definition match_timestamp :: "(nat \<Rightarrow> bool) \<Rightarrow> matcher" where
  "match_timestamp nd =
     seq (match_run (is_decimal nd)) (seq match_separator
       (seq (match_run (is_decimal nd)) (seq match_separator (match_run (is_decimal nd)))))"

section \<open>The sanitizer\<close>

text \<open>\<^verbatim>\<open>str.strip()\<close>: leading and trailing whitespace removed.\<close>

definition strip :: "str \<Rightarrow> str" where
  "strip s = rev (dropWhile is_space (rev (dropWhile is_space s)))"

definition clean_transcript :: "(nat \<Rightarrow> bool) \<Rightarrow> str \<Rightarrow> str" where
  "clean_transcript nd text0 =
     (let text1 = re_sub (match_an_tag nd) [] text0;
          text2 = re_sub match_punctuation [] text1;
          text3 = re_sub (match_run is_space) [32] text2;
          text4 = re_sub (match_run (\<lambda>c. c = 10)) [10] text3;
          text5 = re_sub (match_timestamp nd) [] text4
      in strip text5)"

text \<open>
  \<open>has_match m s\<close>: the pattern with matcher \<open>m\<close> matches somewhere in \<open>s\<close>.
  \<open>has_run p s\<close>: somewhere in \<open>s\<close> two characters of class \<open>p\<close> stand side by side.
\<close>

fun has_match :: "matcher \<Rightarrow> str \<Rightarrow> bool" where
  "has_match m [] \<longleftrightarrow> m [] \<noteq> None"
| "has_match m (c # cs) \<longleftrightarrow> m (c # cs) \<noteq> None \<or> has_match m cs"

fun has_run :: "(nat \<Rightarrow> bool) \<Rightarrow> str \<Rightarrow> bool" where
  "has_run p (a # b # cs) \<longleftrightarrow> p a \<and> p b \<or> has_run p (b # cs)"
| "has_run p _ \<longleftrightarrow> False"

section \<open>Values, exceptions and the outside world\<close>

text \<open>
  The value that \<^verbatim>\<open>await request.json()\<close> returns is any decoded JSON value, not only
  an object. \<open>JObj\<close> holds the items of the decoded \<^verbatim>\<open>dict\<close> (each key once); \<open>JFloat\<close>
  holds the value of the decoded number.
\<close>

datatype json =
    JNull
  | JBool bool
  | JInt int
  | JFloat real
  | JStr str
  | JArr "json list"
  | JObj "(str \<times> json) list"

text \<open>
  Truth value of a decoded value, as \<^verbatim>\<open>not v\<close> tests it: \<^verbatim>\<open>None\<close>, \<^verbatim>\<open>False\<close>, zero
  and the empty string, list and dict are false.
\<close>

fun truthy :: "json \<Rightarrow> bool" where
  "truthy JNull \<longleftrightarrow> False"
| "truthy (JBool b) \<longleftrightarrow> b"
| "truthy (JInt i) \<longleftrightarrow> i \<noteq> 0"
| "truthy (JFloat r) \<longleftrightarrow> r \<noteq> 0"
| "truthy (JStr s) \<longleftrightarrow> s \<noteq> []"
| "truthy (JArr vs) \<longleftrightarrow> vs \<noteq> []"
| "truthy (JObj kvs) \<longleftrightarrow> kvs \<noteq> []"

fun type_name :: "json \<Rightarrow> str" where
  "type_name JNull = lit ''NoneType''"
| "type_name (JBool b) = lit ''bool''"
| "type_name (JInt i) = lit ''int''"
| "type_name (JFloat r) = lit ''float''"
| "type_name (JStr s) = lit ''str''"
| "type_name (JArr vs) = lit ''list''"
| "type_name (JObj kvs) = lit ''dict''"

text \<open>
  An exception carries its text \<^verbatim>\<open>str(e)\<close>. \<open>External\<close> is an exception raised inside a
  collaborator (the Google client, \<^verbatim>\<open>requests\<close>, the OpenAI client, the file system) that
  is an instance of \<^verbatim>\<open>Exception\<close>. \<open>Base_exception\<close> is one that is not
  (\<^verbatim>\<open>KeyboardInterrupt\<close>, \<^verbatim>\<open>SystemExit\<close>, \<^verbatim>\<open>asyncio.CancelledError\<close>):
  \<^verbatim>\<open>except Exception\<close> does not catch it.
\<close>

datatype exception =
    Exception str
  | AttributeError str
  | TypeError str
  | IndexError str
  | JSONDecodeError str
  | UnicodeEncodeError str
  | External str
  | Base_exception str

fun str_exc :: "exception \<Rightarrow> str" where
  "str_exc (Exception m) = m"
| "str_exc (AttributeError m) = m"
| "str_exc (TypeError m) = m"
| "str_exc (IndexError m) = m"
| "str_exc (JSONDecodeError m) = m"
| "str_exc (UnicodeEncodeError m) = m"
| "str_exc (External m) = m"
| "str_exc (Base_exception m) = m"

fun is_Exception :: "exception \<Rightarrow> bool" where
  "is_Exception (Base_exception m) \<longleftrightarrow> False"
| "is_Exception x \<longleftrightarrow> True"

text \<open>
  A text can be encoded as UTF-8 unless it holds a surrogate code point (U+D800 to
  U+DFFF); a decoded JSON string can hold one (\<^verbatim>\<open>"\ud800"\<close>).
\<close>

definition is_surrogate :: "nat \<Rightarrow> bool" where
  "is_surrogate c \<longleftrightarrow> 55296 \<le> c \<and> c \<le> 57343"

definition encodable :: "str \<Rightarrow> bool" where
  "encodable s = list_all (\<lambda>c. \<not> is_surrogate c) s"

text \<open>
  \<^verbatim>\<open>data.get(key, default)\<close>: the value stored under the key, the default only when the
  key is absent. Only a \<^verbatim>\<open>dict\<close> has the method; on any other value the attribute lookup
  raises.
\<close>

fun dict_get :: "json \<Rightarrow> str \<Rightarrow> json \<Rightarrow> exception + json" where
  "dict_get (JObj kvs) key dflt = Inr (case map_of kvs key of None \<Rightarrow> dflt | Some v \<Rightarrow> v)"
| "dict_get v key dflt =
     Inl (AttributeError
       ([39] @ type_name v @ [39] @ lit '' object has no attribute '' @ [39] @ lit ''get'' @ [39]))"

text \<open>
  The two concatenations of \<^verbatim>\<open>generate_llm_report\<close>: \<^verbatim>\<open>v + "..."\<close> with a string
  literal on the right, and \<^verbatim>\<open>"..." + v\<close> with a string on the left. Among decoded JSON
  values only a string can be added to a string.
\<close>

fun add_str_right :: "json \<Rightarrow> str \<Rightarrow> exception + str" where
  "add_str_right (JStr a) b = Inr (a @ b)"
| "add_str_right (JArr vs) b =
     Inl (TypeError (lit ''can only concatenate list (not '' @ [34] @ lit ''str'' @ [34]
                     @ lit '') to list''))"
| "add_str_right v b =
     Inl (TypeError (lit ''unsupported operand type(s) for +: '' @ [39] @ type_name v @ [39]
                     @ lit '' and '' @ [39] @ lit ''str'' @ [39]))"

fun add_str_left :: "str \<Rightarrow> json \<Rightarrow> exception + str" where
  "add_str_left a (JStr b) = Inr (a @ b)"
| "add_str_left a v =
     Inl (TypeError (lit ''can only concatenate str (not '' @ [34] @ type_name v @ [34]
                     @ lit '') to str''))"

text \<open>Decimal text of an integer, as an f-string formats it.\<close>

fun digits10 :: "nat \<Rightarrow> str" where
  "digits10 n = (if n < 10 then [48 + n] else digits10 (n div 10) @ [48 + n mod 10])"

declare digits10.simps [simp del]

definition str_int :: "int \<Rightarrow> str" where
  "str_int i = (if i < 0 then 45 # digits10 (nat (- i)) else digits10 (nat i))"



subsection \<open>Collaborators\<close>

text \<open>The response object of \<^verbatim>\<open>requests.get\<close>: \<^verbatim>\<open>status_code\<close>, \<^verbatim>\<open>text\<close>, \<^verbatim>\<open>content\<close>.\<close>

record get_response =
  get_status_code :: int
  get_text :: str
  get_content :: "nat list"

text \<open>
  The keyword arguments of \<^verbatim>\<open>client.chat.completions.create\<close>; a message is its role
  and its content.
\<close>

record chat_request =
  model :: str
  messages :: "(str \<times> str) list"
  temperature :: real

text \<open>
  What \<^verbatim>\<open>with open(path, "wb") as f: f.write(content)\<close> can do: write the file; fail to
  open it (a directory part of the name that does not exist, a name that is too long), so
  that nothing changes; or fail while writing, so that the file is left with part of the
  content.
\<close>

datatype write_result =
    Written
  | Open_failed exception
  | Write_failed exception "nat list"

text \<open>
  What the service's surroundings answer during one request. Each call returns or raises.
  \<^item> \<open>decimal\<close>: the interpreter's table of decimal digits beyond ASCII.
  \<^item> \<open>credentials\<close>: loading the service account, refreshing it and building the Drive
    client; the result is the bearer token.
  \<^item> \<open>files_get\<close>: the metadata lookup for a file identifier and the subscript
    \<^verbatim>\<open>['name']\<close> of its result.
  \<^item> \<open>requests_get\<close>: the authenticated GET of the media URL of a file identifier with
    a bearer token.
  \<^item> \<open>splitext\<close> is \<^verbatim>\<open>os.path.splitext(name)[0]\<close> and \<open>tmp_path\<close> is
    \<^verbatim>\<open>os.path.join(tempfile.gettempdir(), name)\<close>.
  \<^item> \<open>file_write\<close>: what writing a content to a path does.
  \<^item> \<open>transcriptions_create\<close>: the speech-to-text call on the bytes of the opened file
    (model \<^verbatim>\<open>whisper-1\<close>, response format \<^verbatim>\<open>text\<close>, language \<^verbatim>\<open>en\<close>); the result is
    the text.
  \<^item> \<open>completions_create\<close>: the chat completion call; the result is the list
    \<^verbatim>\<open>choices\<close>, each choice given by its \<^verbatim>\<open>message.content\<close> (\<open>None\<close> for
    \<^verbatim>\<open>None\<close>).
  \<^item> \<open>no_such_file\<close>: the error the operating system raises for a path that does not
    exist.
  \<^item> \<open>encode_error_text\<close>: the text of the \<^verbatim>\<open>UnicodeEncodeError\<close> that encoding a text
    with a surrogate raises.
\<close>

record env =
  decimal :: "nat \<Rightarrow> bool"
  credentials :: "exception + str"
  files_get :: "json \<Rightarrow> exception + str"
  requests_get :: "json \<Rightarrow> str \<Rightarrow> exception + get_response"
  splitext :: "str \<Rightarrow> str"
  tmp_path :: "str \<Rightarrow> str"
  file_write :: "str \<Rightarrow> nat list \<Rightarrow> write_result"
  transcriptions_create :: "nat list \<Rightarrow> exception + str"
  completions_create :: "chat_request \<Rightarrow> exception + str option list"
  no_such_file :: "str \<Rightarrow> exception"
  encode_error_text :: "str \<Rightarrow> str"

text \<open>
  The state a request changes: the files of the temporary directory (path to content)
  and the calls made to collaborators, oldest first.
\<close>

datatype call =
    Credentials
  | Files_get json
  | Requests_get json str
  | Transcriptions_create "nat list"
  | Completions_create chat_request

record world =
  files :: "str \<rightharpoonup> nat list"
  calls :: "call list"

definition called :: "call \<Rightarrow> world \<Rightarrow> world" where
  "called c w = w\<lparr>calls := calls w @ [c]\<rparr>"

section \<open>Helpers of the service\<close>

text \<open>
  The helpers take the surroundings' answers and the world, and return a result or an
  exception together with the new world. Calls to \<^verbatim>\<open>logging\<close> are left out.

  \<^verbatim>\<open>download_mp3_from_drive\<close>: credentials, metadata lookup, download. A status other than
  200 raises before the file is opened; otherwise the content is written to the path in
  the temporary directory (replacing a file of that name) and the path is returned, unless
  opening or writing the file raises.
\<close>

definition download_mp3_from_drive :: "env \<Rightarrow> json \<Rightarrow> world \<Rightarrow> (exception + str) \<times> world" where
  "download_mp3_from_drive e file_id w =
     (let w1 = called Credentials w in
      case credentials e of
        Inl x \<Rightarrow> (Inl x, w1)
      | Inr token \<Rightarrow>
          let w2 = called (Files_get file_id) w1 in
          case files_get e file_id of
            Inl x \<Rightarrow> (Inl x, w2)
          | Inr name \<Rightarrow>
              let file_name = splitext e name;
                  w3 = called (Requests_get file_id token) w2 in
              case requests_get e file_id token of
                Inl x \<Rightarrow> (Inl x, w3)
              | Inr response \<Rightarrow>
                  if get_status_code response \<noteq> 200 then
                    (Inl (Exception (lit ''Failed to download MP3: ''
                            @ str_int (get_status_code response) @ lit '' - ''
                            @ get_text response)), w3)
                  else
                    let mp3_path = tmp_path e (file_name @ lit ''.mp3'') in
                    case file_write e mp3_path (get_content response) of
                      Open_failed x \<Rightarrow> (Inl x, w3)
                    | Write_failed x part \<Rightarrow>
                        (Inl x, w3\<lparr>files := (files w3)(mp3_path \<mapsto> part)\<rparr>)
                    | Written \<Rightarrow>
                        (Inr mp3_path,
                         w3\<lparr>files := (files w3)(mp3_path \<mapsto> get_content response)\<rparr>))"

text \<open>
  \<^verbatim>\<open>transcribe_audio\<close>: the file is opened for reading, its content goes to the
  speech-to-text call, and the text that comes back is cleaned.
\<close>

definition transcribe_audio :: "env \<Rightarrow> str \<Rightarrow> world \<Rightarrow> (exception + str) \<times> world" where
  "transcribe_audio e mp3_path w =
     (case files w mp3_path of
        None \<Rightarrow> (Inl (no_such_file e mp3_path), w)
      | Some audio \<Rightarrow>
          let w1 = called (Transcriptions_create audio) w in
          case transcriptions_create e audio of
            Inl x \<Rightarrow> (Inl x, w1)
          | Inr result \<Rightarrow> (Inr (clean_transcript (decimal e) result), w1))"

text \<open>\<^verbatim>\<open>os.remove(path)\<close>: the file is deleted; a missing file is an error.\<close>

definition os_remove :: "env \<Rightarrow> str \<Rightarrow> world \<Rightarrow> (exception + unit) \<times> world" where
  "os_remove e path w =
     (case files w path of
        None \<Rightarrow> (Inl (no_such_file e path), w)
      | Some content \<Rightarrow> (Inr (), w\<lparr>files := (files w)(path := None)\<rparr>))"

text \<open>
  \<^verbatim>\<open>generate_llm_report\<close>: \<^verbatim>\<open>full_input\<close> is built first (a value that is not a string
  raises here, before any call), then the chat completion is called with the fixed system
  message and \<^verbatim>\<open>full_input\<close> as the user message, and the content of the first choice
  is stripped.
\<close>

definition chat_params :: "str \<Rightarrow> chat_request" where
  "chat_params full_input =
     \<lparr>model = lit ''gpt-4'',
      messages = [(lit ''system'', lit ''You are an expert HR interview evaluator.''),
                  (lit ''user'', full_input)],
      temperature = 7 / 10\<rparr>"

definition generate_llm_report :: "env \<Rightarrow> json \<Rightarrow> json \<Rightarrow> world \<Rightarrow> (exception + str) \<times> world" where
  "generate_llm_report e prompt transcript w =
     (case add_str_right prompt ([10, 10] @ lit ''Transcript:'' @ [10]) of
        Inl x \<Rightarrow> (Inl x, w)
      | Inr head \<Rightarrow>
          (case add_str_left head transcript of
             Inl x \<Rightarrow> (Inl x, w)
           | Inr full_input \<Rightarrow>
               let w1 = called (Completions_create (chat_params full_input)) w in
               (case completions_create e (chat_params full_input) of
                  Inl x \<Rightarrow> (Inl x, w1)
                | Inr [] \<Rightarrow> (Inl (IndexError (lit ''list index out of range'')), w1)
                | Inr (None # choices) \<Rightarrow>
                    (Inl (AttributeError ([39] @ lit ''NoneType'' @ [39]
                            @ lit '' object has no attribute '' @ [39] @ lit ''strip'' @ [39])), w1)
                | Inr (Some content # choices) \<Rightarrow> (Inr (strip content), w1))))"

section \<open>Endpoints\<close>

text \<open>
  A request is what \<^verbatim>\<open>await request.json()\<close> makes of its body: the decoded value, or
  the exception that reading and decoding the body raises (a \<^verbatim>\<open>JSONDecodeError\<close> for a
  body that is not JSON).
\<close>

datatype request = Body_json json | Body_error exception

fun request_json :: "request \<Rightarrow> exception + json" where
  "request_json (Body_json data) = Inr data"
| "request_json (Body_error x) = Inl x"

text \<open>
  What a handler hands to the framework: the status and the content of the response. A
  \<^verbatim>\<open>dict\<close> that a handler returns is answered with status 200; the framework renders it
  after the handler has returned.
\<close>

record response =
  status_code :: nat
  content :: json

text \<open>
  \<^verbatim>\<open>JSONResponse(status_code=code, content={"error": msg})\<close>. The constructor renders the
  body: it encodes the content as UTF-8 and raises \<^verbatim>\<open>UnicodeEncodeError\<close> when the text
  cannot be encoded.
\<close>

definition error_response :: "env \<Rightarrow> nat \<Rightarrow> str \<Rightarrow> exception + response" where
  "error_response e code msg =
     (if encodable msg then Inr \<lparr>status_code = code, content = JObj [(lit ''error'', JStr msg)]\<rparr>
      else Inl (UnicodeEncodeError (encode_error_text e msg)))"

text \<open>
  The \<^verbatim>\<open>try\<close> block of \<^verbatim>\<open>transcribe_endpoint\<close>: \<open>Inr\<close> is a response that the block
  returns, \<open>Inl\<close> an exception that leaves it.
\<close>

definition transcribe_try :: "env \<Rightarrow> request \<Rightarrow> world \<Rightarrow> (exception + response) \<times> world" where
  "transcribe_try e req w =
     (case request_json req of
        Inl x \<Rightarrow> (Inl x, w)
      | Inr data \<Rightarrow>
          (case dict_get data (lit ''file_id'') JNull of
             Inl x \<Rightarrow> (Inl x, w)
           | Inr file_id \<Rightarrow>
               if \<not> truthy file_id then (error_response e 400 (lit ''Missing file_id''), w)
               else
                 (case download_mp3_from_drive e file_id w of
                    (Inl x, w1) \<Rightarrow> (Inl x, w1)
                  | (Inr mp3_path, w1) \<Rightarrow>
                      (case transcribe_audio e mp3_path w1 of
                         (Inl x, w2) \<Rightarrow> (Inl x, w2)
                       | (Inr transcript, w2) \<Rightarrow>
                           (case os_remove e mp3_path w2 of
                              (Inl x, w3) \<Rightarrow> (Inl x, w3)
                            | (Inr u, w3) \<Rightarrow>
                                (Inr \<lparr>status_code = 200,
                                      content = JObj [(lit ''transcript'', JStr (strip transcript))]\<rparr>,
                                 w3))))))"

text \<open>
  \<^verbatim>\<open>except Exception as e\<close>: an exception of the \<^verbatim>\<open>try\<close> block that is an instance of
  \<^verbatim>\<open>Exception\<close> is answered with status 500 and its text; building that response can
  raise in turn. Any other exception leaves the handler. So a handler returns a response
  (\<open>Inr\<close>) or raises (\<open>Inl\<close>).
\<close>

definition except_Exception ::
  "env \<Rightarrow> (exception + response) \<times> world \<Rightarrow> (exception + response) \<times> world" where
  "except_Exception e outcome =
     (case outcome of
        (Inr r, w') \<Rightarrow> (Inr r, w')
      | (Inl x, w') \<Rightarrow>
          if is_Exception x then (error_response e 500 (str_exc x), w') else (Inl x, w'))"

definition transcribe_endpoint :: "env \<Rightarrow> request \<Rightarrow> world \<Rightarrow> (exception + response) \<times> world" where
  "transcribe_endpoint e req w = except_Exception e (transcribe_try e req w)"

text \<open>The \<^verbatim>\<open>try\<close> block of \<^verbatim>\<open>generate_report_endpoint\<close>, and the handler.\<close>

definition default_prompt :: str where
  "default_prompt = lit ''Evaluate the following interview transcript.''"

definition generate_report_try :: "env \<Rightarrow> request \<Rightarrow> world \<Rightarrow> (exception + response) \<times> world" where
  "generate_report_try e req w =
     (case request_json req of
        Inl x \<Rightarrow> (Inl x, w)
      | Inr data \<Rightarrow>
          (case dict_get data (lit ''prompt'') (JStr default_prompt) of
             Inl x \<Rightarrow> (Inl x, w)
           | Inr prompt \<Rightarrow>
               (case dict_get data (lit ''transcript'') JNull of
                  Inl x \<Rightarrow> (Inl x, w)
                | Inr transcript \<Rightarrow>
                    if \<not> truthy transcript then
                      (error_response e 400 (lit ''Missing transcript''), w)
                    else
                      (case generate_llm_report e prompt transcript w of
                         (Inl x, w1) \<Rightarrow> (Inl x, w1)
                       | (Inr report, w1) \<Rightarrow>
                           (Inr \<lparr>status_code = 200,
                                 content = JObj [(lit ''report'', JStr report)]\<rparr>, w1)))))"

definition generate_report_endpoint :: "env \<Rightarrow> request \<Rightarrow> world \<Rightarrow> (exception + response) \<times> world" where
  "generate_report_endpoint e req w = except_Exception e (generate_report_try e req w)"

section \<open>A sample run\<close>

text \<open>
  Surroundings in which every call answers: the file \<^verbatim>\<open>interview.m4a\<close> is found,
  downloaded and written, the speech-to-text call and the chat completion return text.
  The world starts with an empty temporary directory and no call made.
\<close>

definition sample_env :: env where
  "sample_env =
     \<lparr>decimal = unicode14_decimal,
      credentials = Inr (lit ''token''),
      files_get = (\<lambda>file_id. Inr (lit ''interview.m4a'')),
      requests_get = (\<lambda>file_id token.
        Inr \<lparr>get_status_code = 200, get_text = [], get_content = [73, 68, 51]\<rparr>),
      splitext = (\<lambda>name. lit ''interview''),
      tmp_path = (\<lambda>name. lit ''/tmp/'' @ name),
      file_write = (\<lambda>path content. Written),
      transcriptions_create = (\<lambda>audio. Inr (lit ''Hello   world '')),
      completions_create = (\<lambda>params. Inr [Some (lit '' Clear answers. '')]),
      no_such_file = (\<lambda>path. External (lit ''No such file or directory'')),
      encode_error_text = (\<lambda>msg. lit ''surrogates not allowed'')\<rparr>"

definition sample_world :: world where
  "sample_world = \<lparr>files = Map.empty, calls = []\<rparr>"

section \<open>Properties of the sanitizer\<close>

lemmas sanitizer_defs =
  clean_transcript_def lit_def match_an_tag_def match_punctuation_def punctuation_def
  match_run_def match_timestamp_def seq_def match_separator_def is_space_def
  is_decimal_def strip_def

subsection \<open>Which characters the output can hold\<close>

lemma set_re_sub: "set (re_sub m repl s) \<subseteq> set s \<union> set repl"
proof (induction m repl s rule: re_sub.induct)
  case (1 m repl)
  then show ?case by (auto split: option.splits)
next
  case (2 m repl c cs)
  show ?case
  proof (cases "m (c # cs)")
    case None
    with 2 show ?thesis by auto
  next
    case (Some k)
    show ?thesis
    proof (cases "k = 0")
      case True
      with Some 2 show ?thesis by auto
    next
      case False
      have "set (drop k (c # cs)) \<subseteq> set (c # cs)" by (rule set_drop_subset)
      with False Some 2 show ?thesis by auto
    qed
  qed
qed

lemma re_sub_punctuation:
  "re_sub match_punctuation [] s = filter (\<lambda>c. c \<notin> set punctuation) s"
  by (induction s) (simp_all add: match_punctuation_def)

lemma set_strip: "set (strip s) \<subseteq> set s"
proof -
  have "set (strip s) \<subseteq> set (dropWhile is_space s)"
    unfolding strip_def using set_dropWhileD by fastforce
  also have "\<dots> \<subseteq> set s" using set_dropWhileD by fastforce
  finally show ?thesis .
qed

lemma clean_transcript_chars:
  "set (clean_transcript nd x) \<subseteq> {c \<in> set x. c \<notin> set punctuation} \<union> {32, 10}"
proof -
  define t1 where "t1 = re_sub (match_an_tag nd) [] x"
  define t2 where "t2 = re_sub match_punctuation [] t1"
  define t3 where "t3 = re_sub (match_run is_space) [32] t2"
  define t4 where "t4 = re_sub (match_run (\<lambda>c. c = 10)) [10] t3"
  define t5 where "t5 = re_sub (match_timestamp nd) [] t4"
  have c: "clean_transcript nd x = strip t5"
    by (simp add: clean_transcript_def t1_def t2_def t3_def t4_def t5_def)
  have 1: "set t1 \<subseteq> set x" unfolding t1_def using set_re_sub [of "match_an_tag nd" "[]" x] by simp
  have 2: "set t2 \<subseteq> {c \<in> set x. c \<notin> set punctuation}"
    unfolding t2_def re_sub_punctuation using 1 by auto
  have 3: "set t3 \<subseteq> set t2 \<union> {32}"
    unfolding t3_def using set_re_sub [of "match_run is_space" "[32]" t2] by simp
  have 4: "set t4 \<subseteq> set t3 \<union> {10}"
    unfolding t4_def using set_re_sub [of "match_run (\<lambda>c. c = 10)" "[10]" t3] by simp
  have 5: "set t5 \<subseteq> set t4"
    unfolding t5_def using set_re_sub [of "match_timestamp nd" "[]" t4] by simp
  have 6: "set (strip t5) \<subseteq> set t5" by (rule set_strip)
  from 2 3 4 5 6 show ?thesis unfolding c by blast
qed

text \<open>
  Claim C8. For every input string, none of the characters hyphen, en dash, em dash,
  underscore, equals, asterisk, hash, braces, angle brackets, square brackets, double
  quote, single quote, backtick and pipe occurs in the output of \<open>clean_transcript\<close>:
  the second substitution deletes them all, and the later steps only delete characters or
  put a space or a newline in the place of a run.
\<close>

theorem clean_transcript_no_punctuation:
  "set (clean_transcript nd x) \<inter>
     {45, 8211, 8212, 95, 61, 42, 35, 123, 125, 60, 62, 91, 93, 34, 39, 96, 124} = {}"
proof -
  have "32 \<notin> set punctuation" "10 \<notin> set punctuation"
    by (simp_all add: punctuation_def)
  then have "set (clean_transcript nd x) \<inter> set punctuation = {}"
    using clean_transcript_chars [of nd x] by blast
  then show ?thesis by (simp add: punctuation_def)
qed

subsection \<open>Where a pattern cannot match\<close>

lemma match_run_bounds: "match_run p s = Some k \<Longrightarrow> 2 \<le> k \<and> k \<le> length s"
  by (auto simp: match_run_def Let_def length_takeWhile_le split: if_splits)

lemma matchers_nonempty:
  "(match_an_tag nd) s = Some k \<Longrightarrow> 0 < k"
  "match_punctuation s = Some k \<Longrightarrow> 0 < k"
  "match_run p s = Some k \<Longrightarrow> 0 < k"
  "(match_timestamp nd) s = Some k \<Longrightarrow> 0 < k"
  by (auto simp: match_an_tag_def match_punctuation_def match_timestamp_def seq_def Let_def
      dest!: match_run_bounds split: if_splits list.splits option.splits)

lemma re_sub_no_match: "(\<And>n. m (drop n s) = None) \<Longrightarrow> re_sub m repl s = s"
proof (induction s)
  case Nil
  from Nil [of 0] show ?case by simp
next
  case (Cons c cs)
  have "m (drop (Suc n) (c # cs)) = None" for n by (rule Cons.prems)
  then have "re_sub m repl cs = cs" using Cons.IH by simp
  moreover have "m (c # cs) = None" using Cons.prems [of 0] by simp
  ultimately show ?case by simp
qed

text \<open>
  Inside a run of digits no separator matches: a digit group shorter than the whole run
  cannot be followed by \<^verbatim>\<open>:\<close> or \<^verbatim>\<open>.\<close>, so the greedy groups of
  \<open>(match_timestamp nd)\<close> lose no match.
\<close>

lemma no_separator_in_digits:
  assumes "k < length (takeWhile (is_decimal nd) s)"
  shows "match_separator (drop k s) = None"
proof -
  have n: "\<not> (is_decimal nd) 58" "\<not> (is_decimal nd) 46"
    by (simp_all add: is_decimal_def)
  have "takeWhile (is_decimal nd) s ! k \<in> set (takeWhile (is_decimal nd) s)"
    using assms by (rule nth_mem)
  then have d: "(is_decimal nd) (takeWhile (is_decimal nd) s ! k)" by (auto dest: set_takeWhileD)
  have l: "k < length s" using assms length_takeWhile_le [of "is_decimal nd" s] by simp
  have "takeWhile (is_decimal nd) s ! k = s ! k" using assms by (rule takeWhile_nth)
  with d have "(is_decimal nd) (s ! k)" by simp
  moreover have "drop k s = s ! k # drop (Suc k) s" using l by (simp add: Cons_nth_drop_Suc)
  ultimately show ?thesis using n by (auto simp: match_separator_def)
qed

lemma has_match_drop: "\<not> has_match m s \<Longrightarrow> m (drop n s) = None"
proof (induction s arbitrary: n)
  case Nil
  then show ?case by simp
next
  case (Cons c cs)
  then show ?case by (cases n) auto
qed

lemma re_sub_id: "\<not> has_match m s \<Longrightarrow> re_sub m repl s = s"
  by (rule re_sub_no_match) (rule has_match_drop)

lemma has_match_drop_mono: "has_match m (drop n s) \<Longrightarrow> has_match m s"
proof (induction s arbitrary: n)
  case Nil
  then show ?case by simp
next
  case (Cons c cs)
  then show ?case by (cases n) auto
qed

subsection \<open>Runs of whitespace\<close>

lemma has_run_Cons: "has_run p (a # t) \<longleftrightarrow> p a \<and> t \<noteq> [] \<and> p (hd t) \<or> has_run p t"
  by (cases t) auto

lemma has_run_drop: "\<not> has_run p s \<Longrightarrow> \<not> has_run p (drop n s)"
proof (induction s arbitrary: n)
  case Nil
  then show ?case by simp
next
  case (Cons a s)
  then show ?case by (cases n) (auto simp: has_run_Cons)
qed

lemma has_run_take: "\<not> has_run p s \<Longrightarrow> \<not> has_run p (take n s)"
proof (induction s arbitrary: n)
  case Nil
  then show ?case by simp
next
  case (Cons a s)
  show ?case
  proof (cases n)
    case 0
    then show ?thesis by simp
  next
    case (Suc k)
    have "\<not> has_run p (take k s)" using Cons by (simp add: has_run_Cons)
    moreover have "take k s \<noteq> [] \<Longrightarrow> hd (take k s) = hd s \<and> s \<noteq> []" by (cases s; cases k) auto
    ultimately show ?thesis using Cons.prems Suc by (auto simp: has_run_Cons)
  qed
qed

lemma has_run_mono: "(\<And>c. q c \<Longrightarrow> p c) \<Longrightarrow> \<not> has_run p s \<Longrightarrow> \<not> has_run q s"
  by (induction s) (auto simp: has_run_Cons)

lemma match_run_no_run: "\<not> has_run p s \<Longrightarrow> match_run p s = None"
proof (cases s)
  case Nil
  then show ?thesis by (simp add: match_run_def)
next
  case (Cons a t)
  assume "\<not> has_run p s"
  then show ?thesis using Cons by (cases t) (auto simp: match_run_def)
qed

lemma re_sub_run_id: "\<not> has_run p s \<Longrightarrow> re_sub (match_run p) repl s = s"
  by (rule re_sub_no_match) (simp add: match_run_no_run has_run_drop)

lemma match_run_drop: "match_run p s = Some k \<Longrightarrow> drop k s = dropWhile p s"
  by (auto simp: match_run_def Let_def dropWhile_eq_drop split: if_splits)

lemma re_sub_run_hd:
  "s = [] \<or> \<not> p (hd s) \<Longrightarrow>
   re_sub (match_run p) repl s = [] \<or> \<not> p (hd (re_sub (match_run p) repl s))"
  by (cases s) (auto simp: match_run_def)

lemma dropWhile_hd: "dropWhile p s = [] \<or> \<not> p (hd (dropWhile p s))"
  using hd_dropWhile [of p s] by blast

lemma no_run_re_sub: "p 32 \<Longrightarrow> \<not> has_run p (re_sub (match_run p) [32] s)"
proof (induction "match_run p" "[32::nat]" s rule: re_sub.induct)
  case 1
  then show ?case by (simp add: match_run_def)
next
  case (2 c cs)
  show ?case
  proof (cases "match_run p (c # cs)")
    case None
    then have ih: "\<not> has_run p (re_sub (match_run p) [32] cs)" using 2 by simp
    have "cs = [] \<or> \<not> p (hd cs)" if "p c"
      using None that by (cases cs) (auto simp: match_run_def Let_def split: if_splits)
    then have "p c \<Longrightarrow> re_sub (match_run p) [32] cs = [] \<or> \<not> p (hd (re_sub (match_run p) [32] cs))"
      using re_sub_run_hd [of cs p "[32]"] by blast
    with None ih show ?thesis by (auto simp: has_run_Cons)
  next
    case (Some k)
    then have k: "k \<noteq> 0" using matchers_nonempty(3) [of p "c # cs" k] by simp
    have d: "drop k (c # cs) = dropWhile p (c # cs)" using Some by (rule match_run_drop)
    have ih: "\<not> has_run p (re_sub (match_run p) [32] (drop k (c # cs)))"
      using 2(3) [OF Some k 2(4)] .
    have "re_sub (match_run p) [32] (dropWhile p (c # cs)) = [] \<or>
          \<not> p (hd (re_sub (match_run p) [32] (dropWhile p (c # cs))))"
      by (rule re_sub_run_hd) (rule dropWhile_hd)
    with ih d have "\<not> has_run p (32 # re_sub (match_run p) [32] (drop k (c # cs)))"
      by (auto simp: has_run_Cons)
    with Some k show ?thesis by simp
  qed
qed

lemma rstrip_take: "rev (dropWhile p (rev t)) = take (length t - length (takeWhile p (rev t))) t"
  by (simp add: dropWhile_eq_drop rev_drop)

lemma strip_take_drop: "\<exists>i j. strip s = take i (drop j s)"
proof -
  have "strip s = take (length (dropWhile is_space s)
                   - length (takeWhile is_space (rev (dropWhile is_space s))))
                 (drop (length (takeWhile is_space s)) s)"
    unfolding strip_def rstrip_take by (simp add: dropWhile_eq_drop)
  then show ?thesis by blast
qed

lemma no_run_strip: "\<not> has_run p s \<Longrightarrow> \<not> has_run p (strip s)"
  using strip_take_drop [of s] has_run_take has_run_drop by metis

lemma strip_ends: "strip s = [] \<or> \<not> is_space (hd (strip s)) \<and> \<not> is_space (last (strip s))"
proof (cases "strip s = []")
  case True
  then show ?thesis by simp
next
  case False
  define t where "t = dropWhile is_space s"
  define u where "u = dropWhile is_space (rev t)"
  have s: "strip s = rev u" by (simp add: strip_def t_def u_def)
  with False have u: "u \<noteq> []" by simp
  then have "\<not> is_space (hd u)" unfolding u_def using hd_dropWhile by blast
  then have l: "\<not> is_space (last (strip s))" using u s by (simp add: last_rev)
  have "rev t \<noteq> []" using u by (auto simp: u_def)
  then have t: "t \<noteq> []" by simp
  then have ht: "\<not> is_space (hd t)" unfolding t_def using hd_dropWhile by blast
  have "last u = last (rev t)" using u unfolding u_def
    by (metis takeWhile_dropWhile_id last_appendR)
  then have "hd (strip s) = hd t" using s u t by (simp add: hd_rev last_rev)
  with ht l show ?thesis by simp
qed

lemma dropWhile_hd_id: "xs \<noteq> [] \<Longrightarrow> \<not> p (hd xs) \<Longrightarrow> dropWhile p xs = xs"
  by (cases xs) auto

lemma strip_id: "s = [] \<or> \<not> is_space (hd s) \<and> \<not> is_space (last s) \<Longrightarrow> strip s = s"
proof (cases s)
  case Nil
  then show ?thesis by (simp add: strip_def)
next
  case (Cons a t)
  assume "s = [] \<or> \<not> is_space (hd s) \<and> \<not> is_space (last s)"
  with Cons have h: "\<not> is_space (hd s)" and l: "\<not> is_space (last s)" and n: "s \<noteq> []" by auto
  have 1: "dropWhile is_space s = s" using h Cons by simp
  have "\<not> is_space (hd (rev s))" using l n by (simp add: hd_rev)
  moreover have "rev s \<noteq> []" using n by simp
  ultimately have "dropWhile is_space (rev s) = rev s" by (rule dropWhile_hd_id [rotated])
  with 1 show ?thesis by (simp add: strip_def)
qed

lemma strip_strip: "strip (strip s) = strip s"
  by (rule strip_id) (rule strip_ends)

lemma ws_chars: "is_space 32" "is_space 10"
  by (simp_all add: is_space_def)

lemma not_decimal: "\<not> is_decimal nd 92" "\<not> is_decimal nd 58" "\<not> is_decimal nd 46"
  by (simp_all add: is_decimal_def)

lemma newline_step_idle:
  "re_sub (match_run (\<lambda>c. c = 10)) [10] (re_sub (match_run is_space) [32] s)
     = re_sub (match_run is_space) [32] s"
proof (rule re_sub_run_id)
  have "\<not> has_run is_space (re_sub (match_run is_space) [32] s)"
    by (rule no_run_re_sub) (rule ws_chars)
  then show "\<not> has_run (\<lambda>c. c = 10) (re_sub (match_run is_space) [32] s)"
    by (rule has_run_mono [rotated]) (simp add: ws_chars)
qed

text \<open>
  Claim C2 says that the output has no two spaces and no two newlines side by side, and
  that a run of newlines becomes one newline. The code does otherwise. The substitution
  for \<^verbatim>\<open>\s{2,}\<close> runs before the one for \<^verbatim>\<open>\n{2,}\<close> and turns a run of newlines into
  a space, so the newline substitution never finds a run (lemma \<open>newline_step_idle\<close>);
  and timestamps are removed after the runs were collapsed, which puts the characters
  around a timestamp side by side.
\<close>

theorem clean_transcript_runs_survive:
  "clean_transcript nd (lit ''a  b'' @ [10, 10] @ lit ''c'') = lit ''a b c'' \<and>
   has_run (\<lambda>c. c = 32) (clean_transcript nd (lit ''a 00:01:23 b'')) \<and>
   has_run (\<lambda>c. c = 10) (clean_transcript nd (lit ''a'' @ [10] @ lit ''00:01:23'' @ [10] @ lit ''b''))"
proof -
  have 1: "clean_transcript nd (lit ''a  b'' @ [10, 10] @ lit ''c'') = lit ''a b c''"
    by (simp add: sanitizer_defs)
  have 2: "clean_transcript nd (lit ''a 00:01:23 b'') = lit ''a  b''"
    by (simp add: sanitizer_defs)
  have 3: "clean_transcript nd (lit ''a'' @ [10] @ lit ''00:01:23'' @ [10] @ lit ''b'') = [97, 10, 10, 98]"
    by (simp add: sanitizer_defs)
  show ?thesis unfolding 1 2 3 by (simp add: lit_def)
qed

subsection \<open>Timestamps do not survive\<close>

text \<open>
  A match that ends inside a prefix does not depend on what follows the prefix; a match
  that ends with the prefix is still a match, maybe a longer one, when more text follows.
\<close>

lemma takeWhile_inside:
  "length (takeWhile p (xs @ r)) < length xs \<Longrightarrow> takeWhile p (xs @ r') = takeWhile p (xs @ r)"
  by (induction xs) auto

lemma takeWhile_append_le: "length (takeWhile p xs) \<le> length (takeWhile p (xs @ r))"
  by (induction xs) auto

lemma run_local:
  "match_run p (xs @ r) = Some k \<Longrightarrow> k < length xs \<Longrightarrow> match_run p (xs @ r') = Some k"
  using takeWhile_inside [of p xs r r'] by (auto simp: match_run_def Let_def split: if_splits)

lemma run_wlocal:
  assumes "match_run p (xs @ r) = Some k" and "k \<le> length xs"
  shows "\<exists>k'. match_run p (xs @ r') = Some k'"
proof (cases "k < length xs")
  case True
  with assms(1) show ?thesis by (blast dest: run_local)
next
  case False
  with assms have k: "k = length xs" "length (takeWhile p (xs @ r)) = k" "2 \<le> k"
    by (auto simp: match_run_def Let_def split: if_splits)
  have "length (takeWhile p (xs @ r)) \<le> length xs"
    using k by simp
  have "takeWhile p (xs @ r) = take k (xs @ r)"
    using k(2) by (metis takeWhile_eq_take)
  then have "takeWhile p (xs @ r) = xs" using k(1) by simp
  then have "\<forall>x \<in> set xs. p x" by (metis set_takeWhileD)
  then have "takeWhile p xs = xs" by (simp add: takeWhile_eq_all_conv)
  then have "length xs \<le> length (takeWhile p (xs @ r'))"
    using takeWhile_append_le [of p xs r'] by simp
  with k show ?thesis by (simp add: match_run_def Let_def)
qed

lemma sep_local:
  "match_separator (xs @ r) = Some k \<Longrightarrow> k \<le> length xs \<Longrightarrow> match_separator (xs @ r') = Some k"
  by (cases xs) (auto simp: match_separator_def split: list.splits if_splits)

lemma seq_local:
  assumes 1: "\<And>xs r r' k. f (xs @ r) = Some k \<Longrightarrow> k < length xs \<Longrightarrow> f (xs @ r') = Some k"
    and 2: "\<And>xs r r' k. g (xs @ r) = Some k \<Longrightarrow> k < length xs \<Longrightarrow> g (xs @ r') = Some k"
    and s: "seq f g (xs @ r) = Some k" and k: "k < length xs"
  shows "seq f g (xs @ r') = Some k"
proof -
  from s obtain a b where a: "f (xs @ r) = Some a" and b: "g (drop a (xs @ r)) = Some b"
    and ab: "k = a + b"
    by (auto simp: seq_def split: option.splits)
  have a': "f (xs @ r') = Some a" using 1 [OF a] k ab by simp
  have "g (drop a xs @ r) = Some b" using b k ab by simp
  then have "g (drop a xs @ r') = Some b" using 2 [of "drop a xs" r b r'] k ab by simp
  then have "g (drop a (xs @ r')) = Some b" using k ab by simp
  with a' ab show ?thesis by (simp add: seq_def)
qed

lemma seq_wlocal:
  assumes 1: "\<And>xs r r' k. f (xs @ r) = Some k \<Longrightarrow> k < length xs \<Longrightarrow> f (xs @ r') = Some k"
    and 2: "\<And>xs r r' k. g (xs @ r) = Some k \<Longrightarrow> k \<le> length xs \<Longrightarrow> \<exists>k'. g (xs @ r') = Some k'"
    and n: "\<And>s k. g s = Some k \<Longrightarrow> 0 < k"
    and s: "seq f g (xs @ r) = Some k" and k: "k \<le> length xs"
  shows "\<exists>k'. seq f g (xs @ r') = Some k'"
proof -
  from s obtain a b where a: "f (xs @ r) = Some a" and b: "g (drop a (xs @ r)) = Some b"
    and ab: "k = a + b"
    by (auto simp: seq_def split: option.splits)
  have "0 < b" using n [OF b] .
  then have al: "a < length xs" using k ab by simp
  have a': "f (xs @ r') = Some a" using 1 [OF a al] .
  have "g (drop a xs @ r) = Some b" using b al by simp
  moreover have "b \<le> length (drop a xs)" using k ab by simp
  ultimately obtain b' where "g (drop a xs @ r') = Some b'"
    using 2 [of "drop a xs" r b r'] by blast
  then have "g (drop a (xs @ r')) = Some b'" using al by simp
  with a' show ?thesis by (simp add: seq_def)
qed

lemma seq_nonempty:
  "(\<And>s k. g s = Some k \<Longrightarrow> 0 < k) \<Longrightarrow> seq f g s = Some k \<Longrightarrow> 0 < k"
  by (auto simp: seq_def split: option.splits)

lemma run_nonempty: "match_run p s = Some k \<Longrightarrow> 0 < k"
  by (auto simp: match_run_def Let_def split: if_splits)

lemma sep_local':
  "match_separator (xs @ r) = Some k \<Longrightarrow> k < length xs \<Longrightarrow> match_separator (xs @ r') = Some k"
  by (rule sep_local) simp_all

lemma group45_nonempty: "seq match_separator (match_run p) s = Some k \<Longrightarrow> 0 < k"
  by (erule seq_nonempty [rotated]) (rule run_nonempty)

lemma group345_nonempty:
  "seq (match_run p) (seq match_separator (match_run p)) s = Some k \<Longrightarrow> 0 < k"
  by (erule seq_nonempty [rotated]) (rule group45_nonempty)

lemma group2345_nonempty:
  "seq match_separator (seq (match_run p) (seq match_separator (match_run p))) s = Some k \<Longrightarrow> 0 < k"
  by (erule seq_nonempty [rotated]) (rule group345_nonempty)

lemma group45_local:
  assumes "seq match_separator (match_run p) (xs @ r) = Some k" and "k < length xs"
  shows "seq match_separator (match_run p) (xs @ r') = Some k"
  using assms by (rule seq_local [rotated 2]) (erule sep_local' run_local, assumption)+

lemma group345_local:
  assumes "seq (match_run p) (seq match_separator (match_run p)) (xs @ r) = Some k"
    and "k < length xs"
  shows "seq (match_run p) (seq match_separator (match_run p)) (xs @ r') = Some k"
  using assms by (rule seq_local [rotated 2]) (erule run_local group45_local, assumption)+

lemma group2345_local:
  assumes "seq match_separator (seq (match_run p) (seq match_separator (match_run p))) (xs @ r)
             = Some k"
    and "k < length xs"
  shows "seq match_separator (seq (match_run p) (seq match_separator (match_run p))) (xs @ r')
           = Some k"
  using assms by (rule seq_local [rotated 2]) (erule sep_local' group345_local, assumption)+

lemma timestamp_local:
  assumes "match_timestamp nd (xs @ r) = Some k" and "k < length xs"
  shows "match_timestamp nd (xs @ r') = Some k"
  using assms unfolding match_timestamp_def
  by (rule seq_local [rotated 2]) (erule run_local group2345_local, assumption)+

lemma group45_wlocal:
  assumes "seq match_separator (match_run p) (xs @ r) = Some k" and "k \<le> length xs"
  shows "\<exists>k'. seq match_separator (match_run p) (xs @ r') = Some k'"
  using assms
proof (rule seq_wlocal [rotated 3])
  show "match_separator (ys @ q') = Some j"
    if "match_separator (ys @ q) = Some j" "j < length ys" for ys q q' j
    using that by (rule sep_local')
  show "\<exists>k'. match_run p (ys @ q') = Some k'"
    if "match_run p (ys @ q) = Some j" "j \<le> length ys" for ys q q' j
    using that by (rule run_wlocal)
  show "0 < j" if "match_run p s = Some j" for s j using that by (rule run_nonempty)
qed

lemma group345_wlocal:
  assumes "seq (match_run p) (seq match_separator (match_run p)) (xs @ r) = Some k"
    and "k \<le> length xs"
  shows "\<exists>k'. seq (match_run p) (seq match_separator (match_run p)) (xs @ r') = Some k'"
  using assms
proof (rule seq_wlocal [rotated 3])
  show "match_run p (ys @ q') = Some j"
    if "match_run p (ys @ q) = Some j" "j < length ys" for ys q q' j
    using that by (rule run_local)
  show "\<exists>k'. seq match_separator (match_run p) (ys @ q') = Some k'"
    if "seq match_separator (match_run p) (ys @ q) = Some j" "j \<le> length ys" for ys q q' j
    using that by (rule group45_wlocal)
  show "0 < j" if "seq match_separator (match_run p) s = Some j" for s j
    using that by (rule group45_nonempty)
qed

lemma group2345_wlocal:
  assumes "seq match_separator (seq (match_run p) (seq match_separator (match_run p))) (xs @ r)
             = Some k"
    and "k \<le> length xs"
  shows "\<exists>k'. seq match_separator (seq (match_run p) (seq match_separator (match_run p)))
                 (xs @ r') = Some k'"
  using assms
proof (rule seq_wlocal [rotated 3])
  show "match_separator (ys @ q') = Some j"
    if "match_separator (ys @ q) = Some j" "j < length ys" for ys q q' j
    using that by (rule sep_local')
  show "\<exists>k'. seq (match_run p) (seq match_separator (match_run p)) (ys @ q') = Some k'"
    if "seq (match_run p) (seq match_separator (match_run p)) (ys @ q) = Some j" "j \<le> length ys"
    for ys q q' j
    using that by (rule group345_wlocal)
  show "0 < j" if "seq (match_run p) (seq match_separator (match_run p)) s = Some j" for s j
    using that by (rule group345_nonempty)
qed

lemma timestamp_wlocal:
  assumes "match_timestamp nd (xs @ r) = Some k" and "k \<le> length xs"
  shows "\<exists>k'. match_timestamp nd (xs @ r') = Some k'"
  using assms unfolding match_timestamp_def
proof (rule seq_wlocal [rotated 3])
  let ?p = "is_decimal nd"
  show "match_run ?p (ys @ q') = Some j"
    if "match_run ?p (ys @ q) = Some j" "j < length ys" for ys q q' j
    using that by (rule run_local)
  show "\<exists>k'. seq match_separator (seq (match_run ?p) (seq match_separator (match_run ?p)))
                 (ys @ q') = Some k'"
    if "seq match_separator (seq (match_run ?p) (seq match_separator (match_run ?p))) (ys @ q)
          = Some j" "j \<le> length ys"
    for ys q q' j
    using that by (rule group2345_wlocal)
  show "0 < j"
    if "seq match_separator (seq (match_run ?p) (seq match_separator (match_run ?p))) s = Some j"
    for s j
    using that by (rule group2345_nonempty)
qed

text \<open>
  The shape of a match: two positions inside it hold the separators, all others hold
  digits; the last position holds a digit, and no digit follows the match.
\<close>

lemma run_nth:
  assumes "i < length (takeWhile p (drop n s))"
  shows "p (s ! (n + i))"
proof -
  have "takeWhile p (drop n s) ! i \<in> set (takeWhile p (drop n s))"
    using assms by (rule nth_mem)
  then have "p (takeWhile p (drop n s) ! i)" by (auto dest: set_takeWhileD)
  moreover have "takeWhile p (drop n s) ! i = drop n s ! i" using assms by (rule takeWhile_nth)
  moreover have "i < length (drop n s)"
    using assms length_takeWhile_le [of p "drop n s"] by simp
  ultimately show ?thesis by simp
qed

lemma seq_SomeD:
  "seq m1 m2 s = Some k \<Longrightarrow> \<exists>a b. m1 s = Some a \<and> m2 (drop a s) = Some b \<and> k = a + b"
  by (auto simp: seq_def split: option.splits)

lemma run_SomeD: "match_run p s = Some k \<Longrightarrow> k = length (takeWhile p s) \<and> 2 \<le> k"
  by (auto simp: match_run_def Let_def split: if_splits)

lemma sep_SomeD: "match_separator s = Some k \<Longrightarrow> k = 1 \<and> s \<noteq> []"
  by (auto simp: match_separator_def split: list.splits if_splits)

lemma timestamp_shape:
  assumes "match_timestamp nd s = Some k"
  shows "\<exists>a b c. 2 \<le> a \<and> 2 \<le> b \<and> 2 \<le> c \<and> k = a + b + c + 2 \<and> k \<le> length s \<and>
           (\<forall>i < k. i \<noteq> a \<and> i \<noteq> a + b + 1 \<longrightarrow> is_decimal nd (s ! i)) \<and>
           drop k s = dropWhile (is_decimal nd) (drop (a + b + 2) s)"
proof -
  let ?p = "is_decimal nd"
  let ?run = "match_run ?p"
  from assms obtain a k1 where a: "?run s = Some a"
    and 1: "seq match_separator (seq ?run (seq match_separator ?run)) (drop a s) = Some k1"
    and ka: "k = a + k1"
    unfolding match_timestamp_def by (blast dest: seq_SomeD)
  from 1 obtain x k2 where x: "match_separator (drop a s) = Some x"
    and 2: "seq ?run (seq match_separator ?run) (drop x (drop a s)) = Some k2"
    and k1: "k1 = x + k2"
    by (blast dest: seq_SomeD)
  have x1: "x = 1" and na: "drop a s \<noteq> []" using sep_SomeD [OF x] by simp_all
  have e1: "drop x (drop a s) = drop (a + 1) s" by (simp add: x1 add.commute)
  from 2 obtain b k3 where b: "?run (drop (a + 1) s) = Some b"
    and 3: "seq match_separator ?run (drop b (drop (a + 1) s)) = Some k3"
    and k2: "k2 = b + k3"
    unfolding e1 by (blast dest: seq_SomeD)
  have e2: "drop b (drop (a + 1) s) = drop (a + b + 1) s" by (simp add: add.commute add.left_commute)
  from 3 obtain y c where y: "match_separator (drop (a + b + 1) s) = Some y"
    and c: "?run (drop y (drop (a + b + 1) s)) = Some c"
    and k3: "k3 = y + c"
    unfolding e2 by (blast dest: seq_SomeD)
  have y1: "y = 1" and nb: "drop (a + b + 1) s \<noteq> []" using sep_SomeD [OF y] by simp_all
  have e3: "drop y (drop (a + b + 1) s) = drop (a + b + 2) s" by (simp add: y1 add.commute)
  have c': "?run (drop (a + b + 2) s) = Some c" using c unfolding e3 .
  have a2: "a = length (takeWhile ?p s)" "2 \<le> a" using run_SomeD [OF a] by simp_all
  have b2: "b = length (takeWhile ?p (drop (a + 1) s))" "2 \<le> b" using run_SomeD [OF b] by simp_all
  have c2: "c = length (takeWhile ?p (drop (a + b + 2) s))" "2 \<le> c"
    using run_SomeD [OF c'] by simp_all
  have k: "k = a + b + c + 2" using ka k1 k2 k3 x1 y1 by simp
  have "c \<le> length (drop (a + b + 2) s)" unfolding c2(1) by (rule length_takeWhile_le)
  moreover have "a + b + 1 < length s" using nb by simp
  ultimately have lk: "k \<le> length s" using k by simp
  have d: "?p (s ! i)" if i: "i < k" "i \<noteq> a" "i \<noteq> a + b + 1" for i
  proof -
    consider "i < a" | "a < i" "i < a + b + 1" | "a + b + 1 < i" using i by linarith
    then show ?thesis
    proof cases
      case 1
      then have "i < length (takeWhile ?p (drop 0 s))" using a2(1) by simp
      then have "?p (s ! (0 + i))" by (rule run_nth)
      then show ?thesis by simp
    next
      case 2
      then have "i - (a + 1) < length (takeWhile ?p (drop (a + 1) s))" using b2(1) by simp
      then have "?p (s ! (a + 1 + (i - (a + 1))))" by (rule run_nth)
      moreover have "a + 1 + (i - (a + 1)) = i" using 2 by arith
      ultimately show ?thesis by (simp only:)
    next
      case 3
      then have "i - (a + b + 2) < length (takeWhile ?p (drop (a + b + 2) s))"
        using i k c2(1) by simp
      then have "?p (s ! (a + b + 2 + (i - (a + b + 2))))" by (rule run_nth)
      moreover have "a + b + 2 + (i - (a + b + 2)) = i" using 3 by arith
      ultimately show ?thesis by (simp only:)
    qed
  qed
  have "drop k s = drop c (drop (a + b + 2) s)" using k by (simp add: add.commute)
  also have "\<dots> = dropWhile ?p (drop (a + b + 2) s)"
    unfolding c2(1) by (simp add: dropWhile_eq_drop)
  finally have e: "drop k s = dropWhile ?p (drop (a + b + 2) s)" .
  have "2 \<le> a \<and> 2 \<le> b \<and> 2 \<le> c \<and> k = a + b + c + 2 \<and> k \<le> length s \<and>
           (\<forall>i < k. i \<noteq> a \<and> i \<noteq> a + b + 1 \<longrightarrow> is_decimal nd (s ! i)) \<and>
           drop k s = dropWhile (is_decimal nd) (drop (a + b + 2) s)"
    using a2(2) b2(2) c2(2) k lk d e by (intro conjI allI impI) simp_all
  then show ?thesis by (intro exI)
qed

lemma timestamp_length: "match_timestamp nd s = Some k \<Longrightarrow> 0 < k \<and> k \<le> length s"
  using timestamp_shape [of nd s k] by auto

lemma timestamp_last: "match_timestamp nd s = Some k \<Longrightarrow> is_decimal nd (s ! (k - 1))"
  using timestamp_shape [of nd s k] by auto

lemma timestamp_no_gap:
  assumes "match_timestamp nd s = Some k" and "Suc i < k"
  shows "is_decimal nd (s ! i) \<or> is_decimal nd (s ! Suc i)"
proof -
  from timestamp_shape [OF assms(1)] obtain a b c where
    "2 \<le> b" and d: "\<forall>i < k. i \<noteq> a \<and> i \<noteq> a + b + 1 \<longrightarrow> is_decimal nd (s ! i)"
    by blast
  then have "i \<noteq> a \<or> Suc i \<noteq> a + b + 1" by simp
  then show ?thesis
  proof
    assume "i \<noteq> a"
    show ?thesis
    proof (cases "i = a + b + 1")
      case True
      then have "Suc i \<noteq> a" "Suc i \<noteq> a + b + 1" by simp_all
      then show ?thesis using d assms(2) by simp
    next
      case False
      then show ?thesis using d assms(2) \<open>i \<noteq> a\<close> by simp
    qed
  next
    assume n: "Suc i \<noteq> a + b + 1"
    show ?thesis
    proof (cases "Suc i = a")
      case True
      then have "i \<noteq> a" "i \<noteq> a + b + 1" by simp_all
      then show ?thesis using d assms(2) by simp
    next
      case False
      then show ?thesis using d assms(2) n by simp
    qed
  qed
qed

lemma timestamp_greedy:
  assumes "match_timestamp nd s = Some k"
  shows "drop k s = [] \<or> \<not> is_decimal nd (hd (drop k s))"
proof -
  from timestamp_shape [OF assms] obtain a b where
    "drop k s = dropWhile (is_decimal nd) (drop (a + b + 2) s)" by blast
  then show ?thesis using dropWhile_hd [of "is_decimal nd" "drop (a + b + 2) s"] by simp
qed

lemma seq_SomeI: "m1 s = Some a \<Longrightarrow> m2 (drop a s) = Some b \<Longrightarrow> seq m1 m2 s = Some (a + b)"
  by (simp add: seq_def)

lemma seq_None: "m1 s = None \<Longrightarrow> seq m1 m2 s = None"
  by (simp add: seq_def)

lemma timestamp_starts_with_digit:
  assumes "s = [] \<or> \<not> is_decimal nd (hd s)"
  shows "match_timestamp nd s = None"
proof -
  have "match_run (is_decimal nd) s = None"
    using assms by (cases s) (auto simp: match_run_def)
  then show ?thesis unfolding match_timestamp_def by (rule seq_None)
qed

lemma timestamp_one_digit_earlier:
  assumes "is_decimal nd c" and "match_timestamp nd cs = Some k"
  shows "match_timestamp nd (c # cs) = Some (Suc k)"
proof -
  let ?run = "match_run (is_decimal nd)"
  let ?g2 = "seq match_separator (seq ?run (seq match_separator ?run))"
  from assms(2) obtain a k1 where a: "?run cs = Some a" and g: "?g2 (drop a cs) = Some k1"
    and k: "k = a + k1"
    unfolding match_timestamp_def by (blast dest: seq_SomeD)
  have "?run (c # cs) = Some (Suc a)"
    using a assms(1) by (auto simp: match_run_def Let_def split: if_splits)
  moreover have "?g2 (drop (Suc a) (c # cs)) = Some k1" using g by simp
  ultimately have "seq ?run ?g2 (c # cs) = Some (Suc a + k1)" by (rule seq_SomeI)
  then show ?thesis unfolding match_timestamp_def k by simp
qed

text \<open>
  The substitution for timestamps leaves no timestamp behind. Where a timestamp was cut
  out, the characters on both sides are no digits, and a timestamp has no two such
  characters side by side: so no match of the result runs across a cut, and a match
  between two cuts would have been a match of the text.
\<close>

lemma re_sub_timestamp_hd:
  assumes "s = [] \<or> \<not> is_decimal nd (hd s)"
  shows "re_sub (match_timestamp nd) [] s = [] \<or>
         \<not> is_decimal nd (hd (re_sub (match_timestamp nd) [] s))"
proof (cases s)
  case Nil
  then show ?thesis using timestamp_starts_with_digit [of "[]" nd] by simp
next
  case (Cons c cs)
  then have "match_timestamp nd (c # cs) = None"
    using assms timestamp_starts_with_digit [of s nd] by simp
  then show ?thesis using Cons assms by simp
qed

lemma timestamp_after_prefix:
  assumes "\<And>n. n < length p \<Longrightarrow> match_timestamp nd (drop n (p @ s)) = None"
  shows "match_timestamp nd (p @ re_sub (match_timestamp nd) [] s) = None"
  using assms
proof (induction "match_timestamp nd" "[] :: nat list" s arbitrary: p rule: re_sub.induct)
  case 1
  show ?case
  proof (cases p)
    case Nil
    then show ?thesis using timestamp_starts_with_digit [of "[]" nd] by simp
  next
    case (Cons a q)
    then show ?thesis
      using "1.prems" [of 0] timestamp_starts_with_digit [of "[]" nd] by simp
  qed
next
  case (2 c cs)
  let ?ts = "match_timestamp nd"
  show ?case
  proof (cases "?ts (c # cs)")
    case None
    have "?ts (drop n ((p @ [c]) @ cs)) = None" if "n < length (p @ [c])" for n
    proof (cases "n < length p")
      case True
      then show ?thesis using "2.prems" [of n] by simp
    next
      case False
      with that have "n = length p" by simp
      then show ?thesis using None by simp
    qed
    then have "?ts ((p @ [c]) @ re_sub ?ts [] cs) = None" by (rule "2.hyps"(1) [OF None])
    then show ?thesis using None by simp
  next
    case (Some k)
    then have k0: "k \<noteq> 0" using timestamp_length [of nd "c # cs" k] by simp
    define R where "R = re_sub ?ts [] (drop k (c # cs))"
    have e: "re_sub ?ts [] (c # cs) = R" using Some k0 by (simp add: R_def)
    have Rh: "R = [] \<or> \<not> is_decimal nd (hd R)"
      unfolding R_def using Some by (intro re_sub_timestamp_hd timestamp_greedy)
    show ?thesis
    proof (cases "p = []")
      case True
      then show ?thesis using e Rh timestamp_starts_with_digit [of R nd] by simp
    next
      case False
      then obtain q u where p: "p = q @ [u]" by (metis rev_exhaust)
      have "?ts (drop (length q) (p @ c # cs)) = None" by (rule "2.prems") (simp add: p)
      then have "?ts (u # c # cs) = None" by (simp add: p)
      then have u: "\<not> is_decimal nd u"
        using Some timestamp_one_digit_earlier [of nd u "c # cs" k] by auto
      have p0: "?ts (p @ c # cs) = None" using "2.prems" [of 0] False by simp
      show ?thesis
      proof (rule ccontr)
        assume "?ts (p @ re_sub ?ts [] (c # cs)) \<noteq> None"
        then obtain j where j: "?ts (p @ R) = Some j" using e by auto
        consider "j < length p" | "j = length p" | "length p < j" by linarith
        then show False
        proof cases
          case 1
          with j have "?ts (p @ c # cs) = Some j" by (rule timestamp_local)
          with p0 show False by simp
        next
          case 2
          have "is_decimal nd ((p @ R) ! (j - 1))" using j by (rule timestamp_last)
          then show False using 2 u by (simp add: p nth_append)
        next
          case 3
          have "j \<le> length (p @ R)" using timestamp_length [OF j] by simp
          with 3 have "R \<noteq> []" by auto
          with Rh have v: "\<not> is_decimal nd (hd R)" by simp
          have "Suc (length q) < j" using 3 by (simp add: p)
          with j have "is_decimal nd ((p @ R) ! length q) \<or> is_decimal nd ((p @ R) ! Suc (length q))"
            by (rule timestamp_no_gap)
          moreover have "(p @ R) ! length q = u" by (simp add: p)
          moreover have "(p @ R) ! Suc (length q) = hd R"
            using \<open>R \<noteq> []\<close> by (simp add: p nth_append hd_conv_nth)
          ultimately show False using u v by simp
        qed
      qed
    qed
  qed
qed

lemma re_sub_timestamp_no_match:
  "match_timestamp nd (re_sub (match_timestamp nd) [] s) = None"
  using timestamp_after_prefix [of "[]" nd s] by simp

lemma no_timestamp_left: "\<not> has_match (match_timestamp nd) (re_sub (match_timestamp nd) [] s)"
proof (induction "match_timestamp nd" "[] :: nat list" s rule: re_sub.induct)
  case 1
  then show ?case using timestamp_starts_with_digit [of "[]" nd] by simp
next
  case (2 c cs)
  show ?case
  proof (cases "match_timestamp nd (c # cs)")
    case None
    have "match_timestamp nd (re_sub (match_timestamp nd) [] (c # cs)) = None"
      by (rule re_sub_timestamp_no_match)
    then show ?thesis using None "2.hyps"(1) by simp
  next
    case (Some k)
    then have "k \<noteq> 0" using timestamp_length [of nd "c # cs" k] by simp
    then show ?thesis using Some "2.hyps"(3) by simp
  qed
qed

lemma has_timestamp_take:
  "has_match (match_timestamp nd) (take i s) \<Longrightarrow> has_match (match_timestamp nd) s"
proof (induction s arbitrary: i)
  case Nil
  then show ?case by simp
next
  case (Cons c cs)
  show ?case
  proof (cases i)
    case 0
    then show ?thesis using Cons.prems timestamp_starts_with_digit [of "[]" nd] by simp
  next
    case (Suc j)
    then have "match_timestamp nd (c # take j cs) \<noteq> None \<or> has_match (match_timestamp nd) (take j cs)"
      using Cons.prems by simp
    then show ?thesis
    proof
      assume "match_timestamp nd (c # take j cs) \<noteq> None"
      then obtain k where k: "match_timestamp nd ((c # take j cs) @ []) = Some k" by auto
      then have "k \<le> length (c # take j cs)" using timestamp_length [of nd "c # take j cs" k] by simp
      with k obtain k' where "match_timestamp nd ((c # take j cs) @ drop j cs) = Some k'"
        using timestamp_wlocal by blast
      then show ?thesis by simp
    next
      assume "has_match (match_timestamp nd) (take j cs)"
      then show ?thesis using Cons.IH by simp
    qed
  qed
qed

lemma no_timestamp_strip:
  assumes "\<not> has_match (match_timestamp nd) s"
  shows "\<not> has_match (match_timestamp nd) (strip s)"
proof -
  obtain i j where "strip s = take i (drop j s)" using strip_take_drop by blast
  then show ?thesis using assms has_timestamp_take has_match_drop_mono by metis
qed

subsection \<open>No step makes the text longer\<close>

lemma length_re_sub:
  assumes "\<And>t k. m t = Some k \<Longrightarrow> length repl \<le> k \<and> k \<le> length t"
  shows "length (re_sub m repl s) \<le> length s"
  using assms
proof (induction m repl s rule: re_sub.induct)
  case (1 m repl)
  show ?case
  proof (cases "m []")
    case None
    then show ?thesis by simp
  next
    case (Some k)
    have "length repl \<le> k \<and> k \<le> length ([] :: nat list)" by (rule "1.prems" [OF Some])
    then have "length repl = 0" by auto
    then have "repl = []" by simp
    then show ?thesis using Some by simp
  qed
next
  case (2 m repl c cs)
  show ?case
  proof (cases "m (c # cs)")
    case None
    then show ?thesis using "2.IH"(1) "2.prems" by simp
  next
    case (Some k)
    have b: "length repl \<le> k" "k \<le> length (c # cs)" using "2.prems" [OF Some] by simp_all
    show ?thesis
    proof (cases "k = 0")
      case True
      then show ?thesis using Some b "2.IH"(2) "2.prems" by simp
    next
      case False
      have "length (re_sub m repl (drop k (c # cs))) \<le> length (drop k (c # cs))"
        using "2.IH"(3) [OF Some False] "2.prems" by simp
      then show ?thesis using Some False b by simp
    qed
  qed
qed

lemma length_re_sub_less:
  assumes "\<And>t k. m t = Some k \<Longrightarrow> length repl < k \<and> k \<le> length t"
    and "has_match m s"
  shows "length (re_sub m repl s) < length s"
  using assms
proof (induction m repl s rule: re_sub.induct)
  case (1 m repl)
  then show ?case by (auto dest!: "1.prems"(1))
next
  case (2 m repl c cs)
  have le: "length (re_sub m repl t) \<le> length t" for t
    by (rule length_re_sub) (use "2.prems"(1) in force)
  show ?case
  proof (cases "m (c # cs)")
    case None
    then have "has_match m cs" using "2.prems"(2) by simp
    then show ?thesis using None "2.IH"(1) "2.prems"(1) by simp
  next
    case (Some k)
    have b: "length repl < k" "k \<le> length (c # cs)" using "2.prems"(1) [OF Some] by simp_all
    then have "k \<noteq> 0" by simp
    moreover have "length (re_sub m repl (drop k (c # cs))) \<le> length (drop k (c # cs))"
      by (rule le)
    ultimately show ?thesis using Some b by simp
  qed
qed

lemma an_tag_bounds: "match_an_tag nd t = Some k \<Longrightarrow> 0 < k \<and> k \<le> length t"
proof -
  assume a: "match_an_tag nd t = Some k"
  define n where "n = length (takeWhile (is_decimal nd) (drop 3 t))"
  have t3: "take 3 t = [92, 97, 110]" using a by (auto simp: match_an_tag_def split: if_splits)
  then have "length (take 3 t) = 3" by simp
  then have l3: "3 \<le> length t" by simp
  have "n \<le> length (drop 3 t)" unfolding n_def by (rule length_takeWhile_le)
  then have ln: "3 + n \<le> length t" using l3 by simp
  have k: "k = 3 + n + (if take 1 (drop (3 + n) t) = [92] then 1 else 0)"
    using a by (auto simp: match_an_tag_def n_def Let_def split: if_splits)
  have "take 1 (drop (3 + n) t) = [92] \<Longrightarrow> 3 + n < length t"
    by (cases "3 + n < length t") auto
  then show ?thesis using k ln by (auto split: if_splits)
qed

lemma punctuation_bounds: "match_punctuation t = Some k \<Longrightarrow> 0 < k \<and> k \<le> length t"
  by (auto simp: match_punctuation_def split: list.splits if_splits)

lemma length_strip: "length (strip s) \<le> length s"
proof -
  have "length (strip s) \<le> length (dropWhile is_space s)"
    unfolding strip_def using length_dropWhile_le [of is_space "rev (dropWhile is_space s)"]
    by simp
  also have "\<dots> \<le> length s" by (rule length_dropWhile_le)
  finally show ?thesis .
qed

lemma clean_transcript_shorter:
  assumes "has_match (match_an_tag nd) y"
  shows "length (clean_transcript nd y) < length y"
proof -
  define t1 where "t1 = re_sub (match_an_tag nd) [] y"
  define t2 where "t2 = re_sub match_punctuation [] t1"
  define t3 where "t3 = re_sub (match_run is_space) [32] t2"
  define t4 where "t4 = re_sub (match_run (\<lambda>c. c = 10)) [10] t3"
  define t5 where "t5 = re_sub (match_timestamp nd) [] t4"
  have c: "clean_transcript nd y = strip t5"
    by (simp add: clean_transcript_def t1_def t2_def t3_def t4_def t5_def)
  have 1: "length t1 < length y"
    unfolding t1_def using assms by (rule length_re_sub_less [rotated]) (simp add: an_tag_bounds)
  have 2: "length t2 \<le> length t1"
    unfolding t2_def by (rule length_re_sub) (use punctuation_bounds in force)
  have 3: "length t3 \<le> length t2"
    unfolding t3_def by (rule length_re_sub) (use match_run_bounds in force)
  have 4: "length t4 \<le> length t3"
    unfolding t4_def by (rule length_re_sub) (use match_run_bounds in force)
  have 5: "length t5 \<le> length t4"
    unfolding t5_def by (rule length_re_sub) (use timestamp_length in force)
  have 6: "length (strip t5) \<le> length t5" by (rule length_strip)
  show ?thesis unfolding c using 1 2 3 4 5 6 by linarith
qed

subsection \<open>Cleaning twice\<close>

lemma clean_transcript_fixed:
  assumes a: "\<not> has_match (match_an_tag nd) y"
    and p: "set y \<inter> set punctuation = {}"
    and r: "\<not> has_run is_space y"
    and t: "\<not> has_match (match_timestamp nd) y"
    and s: "strip y = y"
  shows "clean_transcript nd y = y"
proof -
  have 1: "re_sub (match_an_tag nd) [] y = y" using a by (rule re_sub_id)
  have 2: "re_sub match_punctuation [] y = y"
    unfolding re_sub_punctuation using p by (auto simp: filter_id_conv)
  have 3: "re_sub (match_run is_space) [32] y = y" using r by (rule re_sub_run_id)
  have "\<not> has_run (\<lambda>c. c = 10) y"
    using r by (rule has_run_mono [rotated]) (simp add: ws_chars)
  then have 4: "re_sub (match_run (\<lambda>c. c = 10)) [10] y = y" by (rule re_sub_run_id)
  have 5: "re_sub (match_timestamp nd) [] y = y" using t by (rule re_sub_id)
  show ?thesis by (simp add: clean_transcript_def 1 2 3 4 5 s)
qed

lemma clean_transcript_no_timestamp:
  "\<not> has_match (match_timestamp nd) (clean_transcript nd x)"
  unfolding clean_transcript_def Let_def by (intro no_timestamp_strip no_timestamp_left)

lemma clean_transcript_stripped: "strip (clean_transcript nd x) = clean_transcript nd x"
  unfolding clean_transcript_def Let_def by (rule strip_strip)

text \<open>
  Claim C1, as amended. Cleaning a cleaned text again changes nothing whenever the cleaned
  text holds no override tag (backslash, \<^verbatim>\<open>an\<close>, digit) and no two whitespace characters
  side by side; a cleaned text that holds an override tag is changed by the second
  cleaning. Punctuation and timestamps never are in a cleaned text and play no part.
  (A cleaned text with two whitespace characters side by side comes from the removal of a
  timestamp after the runs were collapsed, see claim C2; nothing is said about it here.)
\<close>

theorem clean_transcript_twice:
  "(\<not> has_match (match_an_tag nd) (clean_transcript nd x) \<and>
    \<not> has_run is_space (clean_transcript nd x) \<longrightarrow>
      clean_transcript nd (clean_transcript nd x) = clean_transcript nd x)
 \<and> (has_match (match_an_tag nd) (clean_transcript nd x) \<longrightarrow>
      clean_transcript nd (clean_transcript nd x) \<noteq> clean_transcript nd x)"
proof (intro conjI impI)
  assume h: "\<not> has_match (match_an_tag nd) (clean_transcript nd x) \<and>
             \<not> has_run is_space (clean_transcript nd x)"
  have "set (clean_transcript nd x) \<subseteq> {c \<in> set x. c \<notin> set punctuation} \<union> {32, 10}"
    by (rule clean_transcript_chars)
  moreover have "32 \<notin> set punctuation" "10 \<notin> set punctuation"
    by (simp_all add: punctuation_def)
  ultimately have p: "set (clean_transcript nd x) \<inter> set punctuation = {}" by blast
  show "clean_transcript nd (clean_transcript nd x) = clean_transcript nd x"
    using h p by (intro clean_transcript_fixed clean_transcript_no_timestamp
        clean_transcript_stripped) simp_all
next
  assume "has_match (match_an_tag nd) (clean_transcript nd x)"
  then have "length (clean_transcript nd (clean_transcript nd x)) < length (clean_transcript nd x)"
    by (rule clean_transcript_shorter)
  then show "clean_transcript nd (clean_transcript nd x) \<noteq> clean_transcript nd x" by auto
qed

text \<open>
  A text with digits and a double space that is cleaned once and for all, and one whose
  cleaned text holds a tag.
\<close>

theorem clean_transcript_twice_witness:
  "clean_transcript unicode14_decimal (lit ''I led 12 people.  We met at 9:30.'')
     = lit ''I led 12 people. We met at 9:30.''
 \<and> clean_transcript unicode14_decimal
      (clean_transcript unicode14_decimal (lit ''I led 12 people.  We met at 9:30.''))
     = clean_transcript unicode14_decimal (lit ''I led 12 people.  We met at 9:30.'')
 \<and> clean_transcript unicode14_decimal [92, 97, 92, 97, 110, 49, 110, 49] = [92, 97, 110, 49]
 \<and> clean_transcript unicode14_decimal
      (clean_transcript unicode14_decimal [92, 97, 92, 97, 110, 49, 110, 49])
     \<noteq> clean_transcript unicode14_decimal [92, 97, 92, 97, 110, 49, 110, 49]"
proof -
  let ?nd = unicode14_decimal
  have 1: "clean_transcript ?nd (lit ''I led 12 people.  We met at 9:30.'')
             = lit ''I led 12 people. We met at 9:30.''"
    by (simp add: sanitizer_defs)
  have a: "\<not> has_match (match_an_tag ?nd) (lit ''I led 12 people. We met at 9:30.'')"
    by (simp add: lit_def match_an_tag_def)
  have b: "\<not> has_run is_space (lit ''I led 12 people. We met at 9:30.'')"
    by (simp add: lit_def is_space_def)
  have 2: "clean_transcript ?nd [92, 97, 92, 97, 110, 49, 110, 49] = [92, 97, 110, 49]"
    by (simp add: sanitizer_defs)
  have c: "has_match (match_an_tag ?nd) [92, 97, 110, 49]"
    by (simp add: match_an_tag_def is_decimal_def)
  from clean_transcript_twice [of ?nd "lit ''I led 12 people.  We met at 9:30.''"] a b
  have 3: "clean_transcript ?nd (clean_transcript ?nd (lit ''I led 12 people.  We met at 9:30.''))
             = clean_transcript ?nd (lit ''I led 12 people.  We met at 9:30.'')"
    unfolding 1 by blast
  from clean_transcript_twice [of ?nd "[92, 97, 92, 97, 110, 49, 110, 49]"] c
  have 4: "clean_transcript ?nd (clean_transcript ?nd [92, 97, 92, 97, 110, 49, 110, 49])
             \<noteq> clean_transcript ?nd [92, 97, 92, 97, 110, 49, 110, 49]"
    unfolding 2 by blast
  from 1 2 3 4 show ?thesis by (intro conjI)
qed

text \<open>
  Claim C1 as stated fails. In \<^verbatim>\<open>\a\an1n1\<close> the removal of the inner tag \<^verbatim>\<open>\an1\<close> joins
  the characters around it to a new tag, which only a second cleaning removes: one pass
  from left to right does not look back.
\<close>

theorem clean_transcript_not_idempotent:
  "clean_transcript unicode14_decimal [92, 97, 92, 97, 110, 49, 110, 49] = [92, 97, 110, 49]
 \<and> clean_transcript unicode14_decimal
      (clean_transcript unicode14_decimal [92, 97, 92, 97, 110, 49, 110, 49]) = []
 \<and> clean_transcript unicode14_decimal
      (clean_transcript unicode14_decimal [92, 97, 92, 97, 110, 49, 110, 49])
     \<noteq> clean_transcript unicode14_decimal [92, 97, 92, 97, 110, 49, 110, 49]"
proof -
  have 1: "clean_transcript unicode14_decimal [92, 97, 92, 97, 110, 49, 110, 49] = [92, 97, 110, 49]"
    by (simp add: sanitizer_defs)
  have 2: "clean_transcript unicode14_decimal [92, 97, 110, 49] = []"
    by (simp add: sanitizer_defs)
  show ?thesis unfolding 1 2 by simp
qed

subsection \<open>Override tags\<close>

text \<open>
  What the first substitution does with a tag: it removes the backslash, \<^verbatim>\<open>an\<close>, the
  digits and one backslash behind them if there is one, and goes on behind that. The text
  behind the tag is treated as if the tag had not been there.
\<close>

lemma drop_3: "drop (3 + n) (a # b # c # xs) = drop n xs"
  by (simp add: numeral_3_eq_3)

lemma match_an_tag_closed:
  assumes "ds \<noteq> []" and "\<forall>d \<in> set ds. is_decimal nd d"
  shows "match_an_tag nd ([92, 97, 110] @ ds @ 92 # rest) = Some (length ds + 4)"
proof -
  have "takeWhile (is_decimal nd) (ds @ 92 # rest) = ds"
    using assms(2) by (simp add: takeWhile_tail not_decimal)
  then show ?thesis using assms(1) by (simp add: match_an_tag_def Let_def drop_3)
qed

lemma match_an_tag_open:
  assumes "ds \<noteq> []" and "\<forall>d \<in> set ds. is_decimal nd d"
    and "rest = [] \<or> hd rest \<noteq> 92 \<and> \<not> is_decimal nd (hd rest)"
  shows "match_an_tag nd ([92, 97, 110] @ ds @ rest) = Some (length ds + 3)"
proof -
  have t: "takeWhile (is_decimal nd) (ds @ rest) = ds"
    using assms(2,3) by (cases rest) (simp_all add: takeWhile_tail)
  have "take 1 rest \<noteq> [92]" using assms(3) by (cases rest) auto
  then have b: "take (Suc 0) (drop (3 + length ds) (92 # 97 # 110 # ds @ rest)) \<noteq> [92]"
    using drop_3 [of "length ds" 92 97 110 "ds @ rest"] by simp
  show ?thesis using assms(1) b by (simp add: match_an_tag_def Let_def t)
qed

lemma match_an_tag_other: "c \<noteq> 92 \<Longrightarrow> match_an_tag nd (c # s) = None"
  by (simp add: match_an_tag_def)

lemma re_sub_no_backslash:
  assumes "92 \<notin> set pre"
  shows "re_sub (match_an_tag nd) [] (pre @ s) = pre @ re_sub (match_an_tag nd) [] s"
  using assms by (induction pre) (simp_all add: match_an_tag_other)

lemma re_sub_an_tag_closed:
  assumes "92 \<notin> set pre" and "ds \<noteq> []" and "\<forall>d \<in> set ds. is_decimal nd d"
  shows "re_sub (match_an_tag nd) [] (pre @ [92, 97, 110] @ ds @ 92 # rest)
       = pre @ re_sub (match_an_tag nd) [] rest"
proof -
  have "re_sub (match_an_tag nd) [] ([92, 97, 110] @ ds @ 92 # rest)
        = re_sub (match_an_tag nd) [] (drop (length ds + 4) ([92, 97, 110] @ ds @ 92 # rest))"
    using match_an_tag_closed [OF assms(2,3), of rest] by simp
  moreover have "drop (length ds + 4) ([92, 97, 110] @ ds @ 92 # rest) = rest"
    using drop_3 [of "Suc (length ds)" 92 97 110 "ds @ 92 # rest"] by (simp add: add.commute)
  ultimately show ?thesis using re_sub_no_backslash [OF assms(1)] by simp
qed

lemma re_sub_an_tag_open:
  assumes "92 \<notin> set pre" and "ds \<noteq> []" and "\<forall>d \<in> set ds. is_decimal nd d"
    and "rest = [] \<or> hd rest \<noteq> 92 \<and> \<not> is_decimal nd (hd rest)"
  shows "re_sub (match_an_tag nd) [] (pre @ [92, 97, 110] @ ds @ rest)
       = pre @ re_sub (match_an_tag nd) [] rest"
proof -
  have "re_sub (match_an_tag nd) [] ([92, 97, 110] @ ds @ rest)
        = re_sub (match_an_tag nd) [] (drop (length ds + 3) ([92, 97, 110] @ ds @ rest))"
    using match_an_tag_open [OF assms(2,3,4)] by simp
  moreover have "drop (length ds + 3) ([92, 97, 110] @ ds @ rest) = rest"
    using drop_3 [of "length ds" 92 97 110 "ds @ rest"] by (simp add: add.commute)
  ultimately show ?thesis using re_sub_no_backslash [OF assms(1)] by simp
qed

text \<open>
  Claim C5 says that the first step removes each override tag together with the annotation
  text behind it, so that neither is in the output. The code does otherwise: the lazy
  \<^verbatim>\<open>.*?\<close> that ends the pattern was written to take that text, but at the end of a
  pattern it matches nothing. Only the tag goes: the backslash, \<^verbatim>\<open>an\<close>, the digits and
  one backslash behind them if there is one, whether the tag is closed by a backslash or
  not. In each of the texts below, a tag followed by \<^verbatim>\<open>Hello\<close>, the output holds
  \<^verbatim>\<open>Hello\<close>.
\<close>

theorem an_tag_annotation_kept:
  "re_sub (match_an_tag nd) [] ([92, 97, 110, 56, 92] @ lit ''Hello'') = lit ''Hello''
 \<and> re_sub (match_an_tag nd) [] ([92, 97, 110, 56] @ lit '' Hello'') = lit '' Hello''
 \<and> re_sub (match_an_tag nd) [] ([92, 97, 110, 56, 92, 92] @ lit ''Hello'') = 92 # lit ''Hello''
 \<and> clean_transcript nd ([92, 97, 110, 56, 92] @ lit ''Hello'') = lit ''Hello''
 \<and> clean_transcript nd ([92, 97, 110, 56] @ lit '' Hello'') = lit ''Hello''
 \<and> clean_transcript nd (lit ''{'' @ [92, 97, 110, 56] @ lit ''}Hello world'') = lit ''Hello world''
 \<and> clean_transcript nd ([92, 97, 110, 56, 92] @ lit ''pos(1,2) Hello'') = lit ''pos(1,2) Hello''"
proof -
  have 1: "re_sub (match_an_tag nd) [] ([92, 97, 110, 56, 92] @ lit ''Hello'') = lit ''Hello''"
    by (simp add: sanitizer_defs)
  have 2: "re_sub (match_an_tag nd) [] ([92, 97, 110, 56] @ lit '' Hello'') = lit '' Hello''"
    by (simp add: sanitizer_defs)
  have 3: "re_sub (match_an_tag nd) [] ([92, 97, 110, 56, 92, 92] @ lit ''Hello'') = 92 # lit ''Hello''"
    by (simp add: sanitizer_defs)
  have 4: "clean_transcript nd ([92, 97, 110, 56, 92] @ lit ''Hello'') = lit ''Hello''"
    by (simp add: sanitizer_defs)
  have 5: "clean_transcript nd ([92, 97, 110, 56] @ lit '' Hello'') = lit ''Hello''"
    by (simp add: sanitizer_defs)
  have 6: "clean_transcript nd (lit ''{'' @ [92, 97, 110, 56] @ lit ''}Hello world'') = lit ''Hello world''"
    by (simp add: sanitizer_defs)
  have 7: "clean_transcript nd ([92, 97, 110, 56, 92] @ lit ''pos(1,2) Hello'') = lit ''pos(1,2) Hello''"
    by (simp add: sanitizer_defs)
  from 1 2 3 4 5 6 7 show ?thesis by (intro conjI)
qed

section \<open>Properties of the endpoints\<close>

lemmas endpoint_defs =
  transcribe_endpoint_def transcribe_try_def generate_report_endpoint_def
  generate_report_try_def except_Exception_def error_response_def

subsection \<open>Texts that can be encoded, and the text of a status code\<close>

lemma encodable_append: "encodable (a @ b) \<longleftrightarrow> encodable a \<and> encodable b"
  by (simp add: encodable_def)

lemma encodable_Cons: "encodable (c # s) \<longleftrightarrow> \<not> is_surrogate c \<and> encodable s"
  by (simp add: encodable_def)

lemma encodable_Nil: "encodable []"
  by (simp add: encodable_def)

lemma encodable_lit: "encodable (lit s)"
proof -
  have "(of_char c :: nat) < 256" for c
    using of_char_mod_256 [of c, where ?'a = nat] mod_less_divisor [of 256 "of_char c :: nat"]
    by simp
  then have "\<not> is_surrogate (of_char c)" for c
    using less_trans [of "of_char c :: nat" 256 55296] by (simp add: is_surrogate_def)
  then show ?thesis by (simp add: encodable_def lit_def list_all_iff)
qed







subsection \<open>Validation of the request\<close>

text \<open>
  Claim C7. A body without \<^verbatim>\<open>file_id\<close> gets status 400 and \<^verbatim>\<open>{"error": "Missing file_id"}\<close>
  from \<^verbatim>\<open>/transcribe\<close>; a body whose \<^verbatim>\<open>transcript\<close> is missing or the empty string gets
  status 400 and \<^verbatim>\<open>{"error": "Missing transcript"}\<close> from \<^verbatim>\<open>/generate-report\<close>. In both
  cases the world is unchanged: no collaborator was called.
\<close>

theorem request_validation:
  "(map_of kvs (lit ''file_id'') = None \<longrightarrow>
      transcribe_endpoint e (Body_json (JObj kvs)) w =
        (Inr \<lparr>status_code = 400, content = JObj [(lit ''error'', JStr (lit ''Missing file_id''))]\<rparr>,
         w))
 \<and> (map_of kvs (lit ''transcript'') = None \<or> map_of kvs (lit ''transcript'') = Some (JStr []) \<longrightarrow>
      generate_report_endpoint e (Body_json (JObj kvs)) w =
        (Inr \<lparr>status_code = 400, content = JObj [(lit ''error'', JStr (lit ''Missing transcript''))]\<rparr>,
         w))"
  by (auto simp: endpoint_defs encodable_lit)

text \<open>The bodies \<^verbatim>\<open>{}\<close>, \<^verbatim>\<open>{"transcript": ""}\<close> and \<^verbatim>\<open>{"prompt": "Rate 1-5"}\<close>.\<close>

theorem request_validation_witness:
  "transcribe_endpoint sample_env (Body_json (JObj [])) sample_world =
     (Inr \<lparr>status_code = 400, content = JObj [(lit ''error'', JStr (lit ''Missing file_id''))]\<rparr>,
      sample_world)
 \<and> generate_report_endpoint sample_env
      (Body_json (JObj [(lit ''transcript'', JStr [])])) sample_world =
     (Inr \<lparr>status_code = 400, content = JObj [(lit ''error'', JStr (lit ''Missing transcript''))]\<rparr>,
      sample_world)
 \<and> generate_report_endpoint sample_env
      (Body_json (JObj [(lit ''prompt'', JStr (lit ''Rate 1-5''))])) sample_world =
     (Inr \<lparr>status_code = 400, content = JObj [(lit ''error'', JStr (lit ''Missing transcript''))]\<rparr>,
      sample_world)"
proof -
  have 1: "map_of ([] :: (str \<times> json) list) (lit ''file_id'') = None" by simp
  have 2: "map_of [(lit ''transcript'', JStr [])] (lit ''transcript'') = Some (JStr [])" by simp
  have 3: "map_of [(lit ''prompt'', JStr (lit ''Rate 1-5''))] (lit ''transcript'') = None"
    by (simp add: lit_def)
  from request_validation [of "[]" sample_env sample_world] 1
    request_validation [of "[(lit ''transcript'', JStr [])]" sample_env sample_world] 2
    request_validation [of "[(lit ''prompt'', JStr (lit ''Rate 1-5''))]" sample_env sample_world] 3
  show ?thesis by blast
qed

subsection \<open>The download and the temporary file\<close>



text \<open>
  When the file cannot be opened for writing (the name from Drive has a directory part
  that does not exist), no file is written, the speech-to-text call is not made and the
  exception goes to the \<^verbatim>\<open>except\<close> branch.
\<close>

lemma download_not_written:
  assumes "credentials e = Inr token" and "files_get e file_id = Inr name"
    and "requests_get e file_id token = Inr response" and "get_status_code response = 200"
    and "file_write e (tmp_path e (splitext e name @ lit ''.mp3'')) (get_content response)
           = Open_failed x"
  shows "download_mp3_from_drive e file_id w =
           (Inl x, w\<lparr>calls := calls w @ [Credentials, Files_get file_id, Requests_get file_id token]\<rparr>)"
  using assms by (simp add: download_mp3_from_drive_def called_def Let_def)








subsection \<open>The prompt of the report\<close>

text \<open>
  Claim C4. For a prompt \<open>p\<close> and a transcript \<open>t\<close> the one call that
  \<^verbatim>\<open>generate_llm_report\<close> makes carries as the content of its user message \<open>p\<close>, two
  newlines, \<^verbatim>\<open>Transcript:\<close>, one newline and \<open>t\<close>; for \<^verbatim>\<open>Rate 1-5\<close> and
  \<^verbatim>\<open>Good answers.\<close> that is \<^verbatim>\<open>Rate 1-5\n\nTranscript:\nGood answers.\<close>; and a request
  body without the key \<^verbatim>\<open>prompt\<close> has the default instruction in the place of \<open>p\<close>.
\<close>

theorem report_prompt_assembly:
  "calls (snd (generate_llm_report e (JStr p) (JStr t) w)) =
     calls w @ [Completions_create
       \<lparr>model = lit ''gpt-4'',
        messages = [(lit ''system'', lit ''You are an expert HR interview evaluator.''),
                    (lit ''user'', p @ [10, 10] @ lit ''Transcript:'' @ [10] @ t)],
        temperature = 7 / 10\<rparr>]
 \<and> calls (snd (generate_llm_report e (JStr (lit ''Rate 1-5'')) (JStr (lit ''Good answers.'')) w)) =
     calls w @ [Completions_create
       \<lparr>model = lit ''gpt-4'',
        messages = [(lit ''system'', lit ''You are an expert HR interview evaluator.''),
                    (lit ''user'', lit ''Rate 1-5'' @ [10, 10] @ lit ''Transcript:'' @ [10]
                                   @ lit ''Good answers.'')],
        temperature = 7 / 10\<rparr>]
 \<and> (map_of kvs (lit ''prompt'') = None \<and> map_of kvs (lit ''transcript'') = Some (JStr t) \<and> t \<noteq> [] \<longrightarrow>
      calls (snd (generate_report_endpoint e (Body_json (JObj kvs)) w)) =
        calls w @ [Completions_create
          \<lparr>model = lit ''gpt-4'',
           messages = [(lit ''system'', lit ''You are an expert HR interview evaluator.''),
                       (lit ''user'', lit ''Evaluate the following interview transcript.''
                                      @ [10, 10] @ lit ''Transcript:'' @ [10] @ t)],
           temperature = 7 / 10\<rparr>])"
proof -
  have g: "calls (snd (generate_llm_report e (JStr p) (JStr t) w)) =
             calls w @ [Completions_create (chat_params (p @ [10, 10] @ lit ''Transcript:'' @ [10] @ t))]"
    for p t
    by (simp add: generate_llm_report_def called_def Let_def split: sum.splits list.splits option.splits)
  have r: "calls (snd (generate_report_endpoint e (Body_json (JObj kvs)) w)) =
             calls (snd (generate_llm_report e (JStr default_prompt) (JStr t) w))"
    if "map_of kvs (lit ''prompt'') = None" "map_of kvs (lit ''transcript'') = Some (JStr t)" "t \<noteq> []"
    using that by (simp add: endpoint_defs split: prod.splits sum.splits)
  show ?thesis
    using g [of p t] g [of "lit ''Rate 1-5''" "lit ''Good answers.''"] g [of default_prompt t] r
    by (simp add: chat_params_def default_prompt_def)
qed

text \<open>The body \<^verbatim>\<open>{"transcript": "Good answers."}\<close>.\<close>

theorem report_prompt_assembly_witness:
  "calls (snd (generate_report_endpoint sample_env
       (Body_json (JObj [(lit ''transcript'', JStr (lit ''Good answers.''))])) sample_world)) =
     [Completions_create
        \<lparr>model = lit ''gpt-4'',
         messages = [(lit ''system'', lit ''You are an expert HR interview evaluator.''),
                     (lit ''user'', lit ''Evaluate the following interview transcript.''
                                    @ [10, 10] @ lit ''Transcript:'' @ [10] @ lit ''Good answers.'')],
         temperature = 7 / 10\<rparr>]"
proof -
  have 1: "map_of [(lit ''transcript'', JStr (lit ''Good answers.''))] (lit ''prompt'') = None"
    by (simp add: lit_def)
  have 2: "map_of [(lit ''transcript'', JStr (lit ''Good answers.''))] (lit ''transcript'')
             = Some (JStr (lit ''Good answers.''))" by simp
  have 3: "lit ''Good answers.'' \<noteq> []" by (simp add: lit_def)
  have 4: "calls sample_world = []" by (simp add: sample_world_def)
  from report_prompt_assembly [of sample_env _ "lit ''Good answers.''" sample_world
      "[(lit ''transcript'', JStr (lit ''Good answers.''))]"] 1 2 3 4
  show ?thesis by simp
qed

text \<open>
  Claim C10. The default prompt stands in only for a missing key. When the body has
  \<^verbatim>\<open>prompt\<close> with the value \<^verbatim>\<open>null\<close> and a transcript that passes the check, the lookup
  gives \<^verbatim>\<open>None\<close>, the concatenation raises a \<^verbatim>\<open>TypeError\<close>, no call is made, and the
  response has status 500.
\<close>

theorem null_prompt_is_server_error:
  assumes "map_of kvs (lit ''prompt'') = Some JNull"
    and "map_of kvs (lit ''transcript'') = Some t" and "truthy t"
  shows "dict_get (JObj kvs) (lit ''prompt'') (JStr default_prompt) = Inr JNull
       \<and> generate_report_endpoint e (Body_json (JObj kvs)) w =
           (Inr \<lparr>status_code = 500,
                 content = JObj [(lit ''error'',
                   JStr (lit ''unsupported operand type(s) for +: '' @ [39] @ lit ''NoneType'' @ [39]
                         @ lit '' and '' @ [39] @ lit ''str'' @ [39]))]\<rparr>, w)"
  using assms
  by (simp add: endpoint_defs generate_llm_report_def encodable_append encodable_lit
      encodable_Cons encodable_Nil is_surrogate_def)

text \<open>The body \<^verbatim>\<open>{"prompt": null, "transcript": "Good answers."}\<close>.\<close>

theorem null_prompt_is_server_error_witness:
  "generate_report_endpoint sample_env
     (Body_json (JObj [(lit ''prompt'', JNull), (lit ''transcript'', JStr (lit ''Good answers.''))]))
     sample_world =
     (Inr \<lparr>status_code = 500,
           content = JObj [(lit ''error'',
             JStr (lit ''unsupported operand type(s) for +: '' @ [39] @ lit ''NoneType'' @ [39]
                   @ lit '' and '' @ [39] @ lit ''str'' @ [39]))]\<rparr>, sample_world)"
proof -
  define kvs where
    "kvs = [(lit ''prompt'', JNull), (lit ''transcript'', JStr (lit ''Good answers.''))]"
  have 1: "map_of kvs (lit ''prompt'') = Some JNull" by (simp add: kvs_def)
  have 2: "map_of kvs (lit ''transcript'') = Some (JStr (lit ''Good answers.''))"
    by (simp add: kvs_def lit_def)
  have 3: "truthy (JStr (lit ''Good answers.''))" by (simp add: lit_def)
  from null_prompt_is_server_error [OF 1 2 3, of sample_env sample_world]
  show ?thesis unfolding kvs_def by simp
qed

subsection \<open>What a handler returns and what it raises\<close>









end
